theory Spec2Isabelle
  imports Main "HOL-Library.Word" "HOL-Library.Multiset" "HOL-Library.Signed_Division"
begin

section \<open>Undefined behaviour as a value\<close>

text \<open>
  The C source checks nothing: no allocation result, no index, no capacity. Where the C
  program would read or write outside an array, use a slot that was never written, or
  overflow a signed \<open>int\<close>, the model stops with a \<open>fault\<close>. A fault is not an error value of the
  program (the program has none): it marks the point where the C standard stops defining
  what the program does. \<open>malloc\<close> is taken to succeed.
\<close>

datatype fault = OutOfBounds | Uninitialised | IntOverflow

definition seq :: "fault + 'a \<Rightarrow> ('a \<Rightarrow> fault + 'b) \<Rightarrow> fault + 'b" where
  "seq m f = (case m of Inl e \<Rightarrow> Inl e | Inr x \<Rightarrow> f x)"

definition INT_MAX :: int where
  "INT_MAX = 2147483647"

definition INT_MIN :: int where
  "INT_MIN = - 2147483648"

text \<open>The result of a signed \<open>int\<close> operation: defined only inside the range of \<open>int\<close>.\<close>

definition chk :: "int \<Rightarrow> fault + int" where
  "chk x = (if INT_MIN \<le> x \<and> x \<le> INT_MAX then Inr x else Inl IntOverflow)"

text \<open>Reading element \<open>i\<close> of a caller's array (\<open>item[i]\<close>, \<open>freq[i]\<close>).\<close>

definition read_arr :: "'a list \<Rightarrow> int \<Rightarrow> fault + 'a" where
  "read_arr xs i = (if 0 \<le> i \<and> i < int (length xs) then Inr (xs ! nat i) else Inl OutOfBounds)"

section \<open>Nodes\<close>

text \<open>
  Modelled from the spec: the declaration of \<open>node_t\<close> is in \<open>min_heap.h\<close>, which is not
  among the sources. The spec's Node has a symbol, a non-negative integer weight and two
  children; the source names the fields \<open>item\<close>, \<open>freq\<close>, \<open>left_p\<close> and \<open>right_p\<close>. A null
  pointer is \<open>None\<close>. \<open>freq\<close> holds what \<open>new_node\<close> receives as \<open>unsigned freq\<close>, taken to be
  32 bits wide: sums wrap around and comparisons are unsigned. \<open>item\<close> is \<open>None\<close> as long as
  nothing was stored in it after \<open>malloc\<close>. A node is not modified once it is in the heap,
  so a pointer to a node is modelled by the node's value.
\<close>

datatype node = Node (item: "char option") (freq: "32 word")
  (left_p: "node option") (right_p: "node option")

text \<open>
  \<open>new_node\<close>, lines 10-18. Line 14 is \<open>temp->item - item;\<close>: an expression statement that
  computes a difference and drops it. Nothing is stored in \<open>item\<close>.
\<close>

definition new_node :: "char \<Rightarrow> 32 word \<Rightarrow> node" where
  "new_node c f = Node None f None None"

definition is_leaf :: "node \<Rightarrow> bool" where
  "is_leaf root_p = (left_p root_p = None \<and> right_p root_p = None)"

section \<open>The heap\<close>

text \<open>
  Modelled from the spec: the declaration of \<open>min_heap_t\<close> is in \<open>min_heap.h\<close>, which is
  not among the sources. The spec's MinHeap has slots, a size and a capacity; the source
  names the fields \<open>size\<close>, \<open>capacity\<close> and \<open>array\<close> (\<open>heap_pp\<close> in \<open>create_heap\<close>). The list
  \<open>array\<close> has one entry per allocated slot; a slot is \<open>None\<close> until a node pointer is stored
  in it. \<open>size\<close> is compared and computed with \<open>int\<close> values throughout and is modelled as
  an \<open>int\<close> (\<open>size_h\<close>, since \<open>size\<close> is taken in HOL); an \<open>int\<close> is 32 bits wide. The macro
  \<open>MAX_HEAP_SIZE\<close> has no value in the source and no use.
\<close>

record min_heap =
  size_h :: int
  capacity :: nat
  array :: "node option list"

text \<open>\<open>heap_p->array[i]\<close> used as a node pointer.\<close>

definition read_slot :: "min_heap \<Rightarrow> int \<Rightarrow> fault + node" where
  "read_slot h i =
     (if 0 \<le> i \<and> i < int (length (array h))
      then (case array h ! nat i of None \<Rightarrow> Inl Uninitialised | Some n \<Rightarrow> Inr n)
      else Inl OutOfBounds)"

text \<open>\<open>heap_p->array[i] = n\<close>.\<close>

definition write_slot :: "min_heap \<Rightarrow> int \<Rightarrow> node \<Rightarrow> fault + min_heap" where
  "write_slot h i n =
     (if 0 \<le> i \<and> i < int (length (array h))
      then Inr (h\<lparr>array := (array h)[nat i := Some n]\<rparr>)
      else Inl OutOfBounds)"

text \<open>\<open>heap_p->array[i]->freq\<close>.\<close>

definition freq_at :: "min_heap \<Rightarrow> int \<Rightarrow> fault + 32 word" where
  "freq_at h i = seq (read_slot h i) (\<lambda>n. Inr (freq n))"

text \<open>
  \<open>create_heap\<close>, lines 21-29 (the source returns the undeclared \<open>minHeap\<close>; the heap it
  built is \<open>heap_p\<close>).
\<close>

definition create_heap :: "nat \<Rightarrow> min_heap" where
  "create_heap cap = \<lparr>size_h = 0, capacity = cap, array = replicate cap None\<rparr>"

text \<open>\<open>swap_node(&heap_p->array[a], &heap_p->array[b])\<close>, lines 31-35.\<close>

definition swap_node :: "min_heap \<Rightarrow> int \<Rightarrow> int \<Rightarrow> fault + min_heap" where
  "swap_node h a b =
     seq (read_slot h a) (\<lambda>t.
     seq (read_slot h b) (\<lambda>y.
     seq (write_slot h a y) (\<lambda>h1.
     write_slot h1 b t)))"

text \<open>
  One of the two tests of \<open>heapify\<close>, lines 42-43 and 45-46:
  \<open>if (cand < size && array[cand]->freq < array[smallest]->freq) smallest = cand;\<close>.
  \<open>&&\<close> reads the array only when \<open>cand < size\<close>; the comparison is strict.
\<close>

definition pick :: "min_heap \<Rightarrow> int \<Rightarrow> int \<Rightarrow> fault + int" where
  "pick h smallest cand =
     (if cand < size_h h
      then seq (freq_at h cand) (\<lambda>fc.
           seq (freq_at h smallest) (\<lambda>fs.
           Inr (if fc < fs then cand else smallest)))
      else Inr smallest)"

lemma seq_cong [fundef_cong]:
  "m = m' \<Longrightarrow> (\<And>x. m' = Inr x \<Longrightarrow> f x = f' x) \<Longrightarrow> seq m f = seq m' f'"
  by (cases m') (simp_all add: seq_def)

lemma seq_Inr [simp]: "seq (Inr x) f = f x"
  by (simp add: seq_def)

lemma seq_Inl [simp]: "seq (Inl e) f = Inl e"
  by (simp add: seq_def)

lemma seq_eq_Inr: "seq m f = Inr y \<longleftrightarrow> (\<exists>x. m = Inr x \<and> f x = Inr y)"
  by (cases m) simp_all

lemma read_slot_Inr:
  "read_slot h i = Inr n \<longleftrightarrow>
     0 \<le> i \<and> i < int (length (array h)) \<and> array h ! nat i = Some n"
  by (auto simp: read_slot_def split: option.splits)

lemma write_slot_Inr:
  "write_slot h i n = Inr h' \<longleftrightarrow>
     0 \<le> i \<and> i < int (length (array h)) \<and> h' = h\<lparr>array := (array h)[nat i := Some n]\<rparr>"
  by (auto simp: write_slot_def)

lemma freq_at_Inr:
  "freq_at h i = Inr w \<longleftrightarrow> (\<exists>n. read_slot h i = Inr n \<and> w = freq n)"
  by (auto simp: freq_at_def seq_eq_Inr)

lemma chk_Inr: "chk x = Inr y \<longleftrightarrow> y = x \<and> INT_MIN \<le> x \<and> x \<le> INT_MAX"
  by (auto simp: chk_def)

lemma pick_Inr:
  "pick h s c = Inr r \<Longrightarrow> r = s \<or> (r = c \<and> 0 \<le> c \<and> c < int (length (array h)))"
  by (auto simp: pick_def seq_eq_Inr freq_at_Inr read_slot_Inr split: if_splits)

lemma swap_node_Inr:
  "swap_node h a b = Inr h' \<Longrightarrow>
     length (array h') = length (array h) \<and> size_h h' = size_h h \<and> capacity h' = capacity h"
  by (auto simp: swap_node_def seq_eq_Inr write_slot_Inr)

lemma sdiv_two: "(a::int) sdiv 2 = (if 0 \<le> a then a div 2 else - ((- a) div 2))"
  by (simp add: signed_divide_int_def sgn_if)

text \<open>
  \<open>heapify\<close>, lines 37-52 (declared on a \<open>node_t *\<close>, used on the heap). \<open>left\<close> and \<open>right\<close>
  are computed in \<open>int\<close> before either is compared.
\<close>

function heapify :: "min_heap \<Rightarrow> int \<Rightarrow> fault + min_heap" where
  "heapify h index =
     seq (chk (2 * index)) (\<lambda>d.
     seq (chk (d + 1)) (\<lambda>left.
     seq (chk (d + 2)) (\<lambda>right.
     seq (pick h index left) (\<lambda>s1.
     seq (pick h s1 right) (\<lambda>smallest.
     if smallest \<noteq> index
     then seq (swap_node h smallest index) (\<lambda>h'. heapify h' smallest)
     else Inr h)))))"
  by pat_completeness auto
termination
proof (relation "measure (\<lambda>(h, i). nat (int (length (array h)) - i))")
  show "wf (measure (\<lambda>(h, i). nat (int (length (array h)) - i)))"
    by simp
next
  fix h :: min_heap and index d left right s1 smallest :: int and h' :: min_heap
  assume d: "chk (2 * index) = Inr d"
    and l: "chk (d + 1) = Inr left"
    and r: "chk (d + 2) = Inr right"
    and p1: "pick h index left = Inr s1"
    and p2: "pick h s1 right = Inr smallest"
    and ne: "smallest \<noteq> index"
    and sw: "swap_node h smallest index = Inr h'"
  from d l r have lr: "left = 2 * index + 1" "right = 2 * index + 2"
    by (auto simp: chk_Inr)
  from pick_Inr [OF p1] pick_Inr [OF p2] ne lr
  have "index < smallest \<and> smallest < int (length (array h))"
    by auto
  with swap_node_Inr [OF sw]
  show "((h', smallest), (h, index)) \<in> measure (\<lambda>(h, i). nat (int (length (array h)) - i))"
    by simp
qed

declare heapify.simps [simp del]

text \<open>\<open>check_size\<close>, lines 56-58.\<close>

definition check_size :: "min_heap \<Rightarrow> bool" where
  "check_size h = (size_h h = 1)"

text \<open>
  \<open>pop\<close>, lines 60-68 (declared to return a \<open>min_heap_t *\<close>; what it returns is the node
  pointer of slot 0). The result is the node and the heap as \<open>pop\<close> leaves it.
\<close>

definition pop :: "min_heap \<Rightarrow> fault + (node \<times> min_heap)" where
  "pop h =
     seq (read_slot h 0) (\<lambda>temp.
     seq (chk (size_h h - 1)) (\<lambda>last.
     seq (read_slot h last) (\<lambda>x.
     seq (write_slot h 0 x) (\<lambda>h1.
     seq (chk (size_h h1 - 1)) (\<lambda>s.
     seq (heapify (h1\<lparr>size_h := s\<rparr>) 0) (\<lambda>h2.
     Inr (temp, h2)))))))"

text \<open>
  The \<open>while\<close> loop of \<open>insert\<close>, lines 75-78. \<open>i && ...\<close> does not look at the parent when
  \<open>i\<close> is 0. \<open>/\<close> on \<open>int\<close> truncates towards zero (\<open>sdiv\<close>). The result is the heap and the
  final \<open>i\<close>.
\<close>

function insert_loop :: "min_heap \<Rightarrow> node \<Rightarrow> int \<Rightarrow> fault + (min_heap \<times> int)" where
  "insert_loop h node_p i =
     (if i \<noteq> 0
      then seq (chk (i - 1)) (\<lambda>i1.
           seq (freq_at h (i1 sdiv 2)) (\<lambda>fp.
           if freq node_p < fp
           then seq (read_slot h (i1 sdiv 2)) (\<lambda>x.
                seq (write_slot h i x) (\<lambda>h'.
                insert_loop h' node_p (i1 sdiv 2)))
           else Inr (h, i)))
      else Inr (h, i))"
  by pat_completeness auto
termination
proof (relation "measure (\<lambda>(h, n, i). nat i)")
  show "wf (measure (\<lambda>(h, n, i). nat i))"
    by simp
next
  fix h :: min_heap and node_p :: node and i i1 :: int and fp :: "32 word"
    and x :: node and h' :: min_heap
  assume "i \<noteq> 0" and c: "chk (i - 1) = Inr i1" and f: "freq_at h (i1 sdiv 2) = Inr fp"
  from f have "0 \<le> i1 sdiv 2"
    by (auto simp: freq_at_Inr read_slot_Inr)
  moreover from c have "i1 = i - 1"
    by (simp add: chk_Inr)
  ultimately have "0 < i \<and> i1 sdiv 2 < i"
    using \<open>i \<noteq> 0\<close> by (auto simp: sdiv_two split: if_splits)
  then show "((h', node_p, i1 sdiv 2), (h, node_p, i)) \<in> measure (\<lambda>(h, n, i). nat i)"
    by simp
qed

declare insert_loop.simps [simp del]

text \<open>\<open>insert\<close>, lines 71-80.\<close>

definition insert_node :: "min_heap \<Rightarrow> node \<Rightarrow> fault + min_heap" where
  "insert_node h node_p =
     seq (chk (size_h h + 1)) (\<lambda>s.
     seq (chk (s - 1)) (\<lambda>i.
     seq (insert_loop (h\<lparr>size_h := s\<rparr>) node_p i) (\<lambda>(h2, j).
     write_slot h2 j node_p)))"

text \<open>The \<open>for\<close> loop of \<open>build_min_heap\<close>, lines 87-88.\<close>

function build_loop :: "min_heap \<Rightarrow> int \<Rightarrow> fault + min_heap" where
  "build_loop h i =
     (if 0 \<le> i
      then seq (heapify h i) (\<lambda>h'.
           seq (chk (i - 1)) (\<lambda>i'.
           build_loop h' i'))
      else Inr h)"
  by pat_completeness auto
termination
  by (relation "measure (\<lambda>(h, i). nat (i + 1))") (auto simp: chk_Inr)

declare build_loop.simps [simp del]

text \<open>\<open>build_min_heap\<close>, lines 83-89.\<close>

definition build_min_heap :: "min_heap \<Rightarrow> fault + min_heap" where
  "build_min_heap h =
     seq (chk (size_h h - 1)) (\<lambda>n.
     seq (chk (n - 1)) (\<lambda>m.
     build_loop h (m sdiv 2)))"

lemma heapify_Inr:
  "heapify h i = Inr h' \<Longrightarrow>
     size_h h' = size_h h \<and> length (array h') = length (array h) \<and> capacity h' = capacity h"
proof (induction h i rule: heapify.induct)
  case (1 h index)
  from "1.prems" obtain s1 smallest where
    p1: "pick h index (2 * index + 1) = Inr s1" and
    p2: "pick h s1 (2 * index + 2) = Inr smallest" and
    c: "chk (2 * index) = Inr (2 * index)" "chk (2 * index + 1) = Inr (2 * index + 1)"
       "chk (2 * index + 2) = Inr (2 * index + 2)" and
    r: "(if smallest \<noteq> index
         then seq (swap_node h smallest index) (\<lambda>h'. heapify h' smallest)
         else Inr h) = Inr h'"
    by (subst (asm) heapify.simps) (auto simp: seq_eq_Inr chk_Inr)
  show ?case
  proof (cases "smallest = index")
    case True
    with r show ?thesis by simp
  next
    case False
    with r obtain h1 where sw: "swap_node h smallest index = Inr h1"
      and rec: "heapify h1 smallest = Inr h'"
      by (auto simp: seq_eq_Inr)
    from "1.IH" [OF c(1) c(2) c(3) p1 p2 False sw rec] swap_node_Inr [OF sw]
    show ?thesis by simp
  qed
qed

lemma pop_Inr:
  "pop h = Inr (t, h') \<Longrightarrow>
     1 \<le> size_h h \<and> size_h h' = size_h h - 1 \<and> length (array h') = length (array h)
       \<and> capacity h' = capacity h"
  by (auto simp: pop_def seq_eq_Inr chk_Inr read_slot_Inr write_slot_Inr dest!: heapify_Inr)

lemma insert_loop_Inr:
  "insert_loop h n i = Inr (h', j) \<Longrightarrow>
     size_h h' = size_h h \<and> length (array h') = length (array h) \<and> capacity h' = capacity h"
proof (induction h n i rule: insert_loop.induct)
  case (1 h node_p i)
  show ?case
  proof (cases "i \<noteq> 0 \<and> (\<exists>fp. freq_at h ((i - 1) sdiv 2) = Inr fp \<and> freq node_p < fp)")
    case False
    with "1.prems" show ?thesis
      by (subst (asm) insert_loop.simps) (auto simp: seq_eq_Inr chk_Inr split: if_splits)
  next
    case True
    then obtain fp where i: "i \<noteq> 0" and f: "freq_at h ((i - 1) sdiv 2) = Inr fp"
      and lt: "freq node_p < fp"
      by blast
    from "1.prems" i f lt obtain x h1 where
      c: "chk (i - 1) = Inr (i - 1)" and
      x: "read_slot h ((i - 1) sdiv 2) = Inr x" and
      w: "write_slot h i x = Inr h1" and
      rec: "insert_loop h1 node_p ((i - 1) sdiv 2) = Inr (h', j)"
      by (subst (asm) insert_loop.simps) (auto simp: seq_eq_Inr chk_Inr)
    from "1.IH" [OF i c f lt x w rec] w show ?thesis
      by (auto simp: write_slot_Inr)
  qed
qed

lemma insert_node_Inr:
  "insert_node h n = Inr h' \<Longrightarrow>
     size_h h' = size_h h + 1 \<and> length (array h') = length (array h)
       \<and> capacity h' = capacity h"
  by (auto simp: insert_node_def seq_eq_Inr chk_Inr write_slot_Inr dest!: insert_loop_Inr)

text \<open>
  The \<open>for\<close> loop of \<open>create_and_build_min_heap\<close>, lines 98-99. An element of \<open>freq\<close> is
  a 32-bit \<open>int\<close>, given by its two's complement bits (\<open>sint\<close> reads its value). It becomes
  the \<open>unsigned\<close> parameter of \<open>new_node\<close>: the conversion keeps the 32 bits.
\<close>

function fill_loop ::
  "min_heap \<Rightarrow> char list \<Rightarrow> 32 word list \<Rightarrow> int \<Rightarrow> int \<Rightarrow> fault + min_heap" where
  "fill_loop h item_a freq_a sz i =
     (if i < sz
      then seq (read_arr item_a i) (\<lambda>c.
           seq (read_arr freq_a i) (\<lambda>f.
           seq (write_slot h i (new_node c f)) (\<lambda>h'.
           seq (chk (i + 1)) (\<lambda>i'.
           fill_loop h' item_a freq_a sz i'))))
      else Inr h)"
  by pat_completeness auto
termination
  by (relation "measure (\<lambda>(h, a, b, sz, i). nat (sz - i))") (auto simp: chk_Inr)

declare fill_loop.simps [simp del]

text \<open>
  \<open>create_and_build_min_heap\<close>, lines 95-105. \<open>create_heap\<close> takes an \<open>unsigned\<close>: the \<open>int\<close>
  \<open>size\<close> is converted modulo \<open>2 ^ 32\<close>.
\<close>

definition create_and_build_min_heap ::
  "char list \<Rightarrow> 32 word list \<Rightarrow> int \<Rightarrow> fault + min_heap" where
  "create_and_build_min_heap item_a freq_a sz =
     seq (fill_loop (create_heap (nat (sz mod 2 ^ 32))) item_a freq_a sz 0) (\<lambda>h.
     build_min_heap (h\<lparr>size_h := sz\<rparr>))"

text \<open>
  The \<open>while\<close> loop of \<open>build_huffman_tree\<close>, lines 111-121. The second component counts
  the iterations; the program does not store it.
\<close>

function merge_loop :: "min_heap \<Rightarrow> nat \<Rightarrow> fault + (min_heap \<times> nat)" where
  "merge_loop h k =
     (if \<not> check_size h
      then seq (pop h) (\<lambda>(left, h1).
           seq (pop h1) (\<lambda>(right, h2).
           seq (insert_node h2
                 (Node (item (new_node CHR ''$'' (freq left + freq right)))
                       (freq (new_node CHR ''$'' (freq left + freq right)))
                       (Some left) (Some right))) (\<lambda>h3.
           merge_loop h3 (Suc k))))
      else Inr (h, k))"
  by pat_completeness auto
termination
proof (relation "measure (\<lambda>(h, k). nat (size_h h))")
  show "wf (measure (\<lambda>(h, k). nat (size_h h)))"
    by simp
next
  fix h :: min_heap and k :: nat and x :: "node \<times> min_heap" and left h1
    and y :: "node \<times> min_heap" and right h2 h3
  assume "pop h = Inr x" "(left, h1) = x" "pop h1 = Inr y" "(right, h2) = y"
    and ins: "insert_node h2
                 (Node (item (new_node CHR ''$'' (freq left + freq right)))
                       (freq (new_node CHR ''$'' (freq left + freq right)))
                       (Some left) (Some right)) = Inr h3"
  then have "pop h = Inr (left, h1)" "pop h1 = Inr (right, h2)"
    by simp_all
  from pop_Inr [OF this(1)] pop_Inr [OF this(2)] insert_node_Inr [OF ins]
  show "((h3, Suc k), (h, k)) \<in> measure (\<lambda>(h, k). nat (size_h h))"
    by simp
qed

declare merge_loop.simps [simp del]

text \<open>\<open>build_huffman_tree\<close>, lines 107-123.\<close>

definition build_huffman_tree :: "char list \<Rightarrow> 32 word list \<Rightarrow> int \<Rightarrow> fault + node" where
  "build_huffman_tree item_a freq_a sz =
     seq (create_and_build_min_heap item_a freq_a sz) (\<lambda>h.
     seq (merge_loop h 0) (\<lambda>(h', k).
     seq (pop h') (\<lambda>(root, h'').
     Inr root)))"

text \<open>
  The builder on a sequence of (symbol, frequency) pairs: the two arrays and their common
  length, as a caller of \<open>build_huffman_tree\<close> passes them.
\<close>

definition build :: "(char \<times> 32 word) list \<Rightarrow> fault + node" where
  "build syms = build_huffman_tree (map fst syms) (map snd syms) (int (length syms))"

section \<open>Vocabulary of the specification\<close>

text \<open>
  The slots in use are the first \<open>size\<close> ones; \<open>contents\<close> is the multiset of the nodes
  they point to and \<open>wt h i\<close> the weight of the node in slot \<open>i\<close>.
\<close>

definition live :: "min_heap \<Rightarrow> node option list" where
  "live h = take (nat (size_h h)) (array h)"

definition nodes_of :: "min_heap \<Rightarrow> node list" where
  "nodes_of h = map the (live h)"

definition contents :: "min_heap \<Rightarrow> node multiset" where
  "contents h = mset (nodes_of h)"

definition wt :: "min_heap \<Rightarrow> nat \<Rightarrow> 32 word" where
  "wt h i = freq (the (array h ! i))"

text \<open>
  A well-formed heap: \<open>0 \<le> size \<le> capacity\<close>, one allocated slot per unit of capacity,
  every slot in use holds a node pointer, and the slots are few enough for the child
  indices \<open>2 * index + 2\<close> of \<open>heapify\<close> to stay within \<open>int\<close>.
\<close>

definition wf_heap :: "min_heap \<Rightarrow> bool" where
  "wf_heap h \<longleftrightarrow>
     0 \<le> size_h h \<and> size_h h \<le> int (length (array h)) \<and> capacity h = length (array h)
       \<and> 2 * int (length (array h)) \<le> INT_MAX \<and> None \<notin> set (live h)"

text \<open>The heap property, by a scan of the slots in use.\<close>

definition heap_prop :: "min_heap \<Rightarrow> bool" where
  "heap_prop h \<longleftrightarrow>
     (\<forall>i \<in> {0..<nat (size_h h)}.
        (2 * i + 1 < nat (size_h h) \<longrightarrow> wt h i \<le> wt h (2 * i + 1)) \<and>
        (2 * i + 2 < nat (size_h h) \<longrightarrow> wt h i \<le> wt h (2 * i + 2)))"

text \<open>
  Counting a tree: nodes without children, nodes with children, whether every node has
  no child or two, and the sum of the weights of the leaves as a natural number.
\<close>

fun leaves :: "node \<Rightarrow> nat" where
  "leaves (Node c f None None) = 1"
| "leaves (Node c f (Some l) None) = leaves l"
| "leaves (Node c f None (Some r)) = leaves r"
| "leaves (Node c f (Some l) (Some r)) = leaves l + leaves r"

fun internals :: "node \<Rightarrow> nat" where
  "internals (Node c f None None) = 0"
| "internals (Node c f (Some l) None) = 1 + internals l"
| "internals (Node c f None (Some r)) = 1 + internals r"
| "internals (Node c f (Some l) (Some r)) = 1 + internals l + internals r"

fun full :: "node \<Rightarrow> bool" where
  "full (Node c f None None) = True"
| "full (Node c f (Some l) (Some r)) = (full l \<and> full r)"
| "full (Node c f _ _) = False"

fun leaf_sum :: "node \<Rightarrow> nat" where
  "leaf_sum (Node c f None None) = unat f"
| "leaf_sum (Node c f (Some l) None) = leaf_sum l"
| "leaf_sum (Node c f None (Some r)) = leaf_sum r"
| "leaf_sum (Node c f (Some l) (Some r)) = leaf_sum l + leaf_sum r"

text \<open>Every internal node's weight is the (32-bit) sum of its two children's weights.\<close>

fun weights_ok :: "node \<Rightarrow> bool" where
  "weights_ok (Node c f None None) = True"
| "weights_ok (Node c f (Some l) (Some r)) = (f = freq l + freq r \<and> weights_ok l \<and> weights_ok r)"
| "weights_ok (Node c f _ _) = False"

text \<open>The leaves that \<open>create_and_build_min_heap\<close> makes from the first \<open>n\<close> pairs.\<close>

definition leaf_nodes :: "char list \<Rightarrow> 32 word list \<Rightarrow> nat \<Rightarrow> node list" where
  "leaf_nodes item_a freq_a n = map (\<lambda>k. new_node (item_a ! k) (freq_a ! k)) [0..<n]"

text \<open>A caller that pops \<open>k\<close> times in a row and keeps the nodes in the order it got them.\<close>

fun pop_n :: "nat \<Rightarrow> min_heap \<Rightarrow> fault + node list" where
  "pop_n 0 h = Inr []"
| "pop_n (Suc k) h = seq (pop h) (\<lambda>(t, h'). seq (pop_n k h') (\<lambda>ts. Inr (t # ts)))"

section \<open>Auxiliary notions for the proofs\<close>

text \<open>
  The node that one iteration of the merge loop inserts, the sum of a measure over the
  heap's contents, a heap with two slots exchanged, and a heap with one slot filled.
\<close>

definition merged :: "node \<Rightarrow> node \<Rightarrow> node" where
  "merged l r = Node None (freq l + freq r) (Some l) (Some r)"

definition total_of :: "(node \<Rightarrow> nat) \<Rightarrow> min_heap \<Rightarrow> nat" where
  "total_of f h = sum_mset (image_mset f (contents h))"

definition swap_h :: "min_heap \<Rightarrow> nat \<Rightarrow> nat \<Rightarrow> min_heap" where
  "swap_h h a b = h\<lparr>array := (array h)[a := array h ! b, b := array h ! a]\<rparr>"

definition fill_h :: "min_heap \<Rightarrow> nat \<Rightarrow> node \<Rightarrow> min_heap" where
  "fill_h h i nd = h\<lparr>array := (array h)[i := Some nd]\<rparr>"

text \<open>
  The order between a slot and its children, on a weight function \<open>w\<close> and a size \<open>n\<close>:
  at one slot, from slot \<open>k\<close> on, and the two weakened forms that hold while \<open>heapify\<close>
  moves a node down from slot \<open>i\<close> and while \<open>insert\<close> moves the free slot \<open>i\<close> up.
\<close>

definition edge_ok :: "(nat \<Rightarrow> 32 word) \<Rightarrow> nat \<Rightarrow> nat \<Rightarrow> bool" where
  "edge_ok w n j \<longleftrightarrow>
     (2 * j + 1 < n \<longrightarrow> w j \<le> w (2 * j + 1)) \<and> (2 * j + 2 < n \<longrightarrow> w j \<le> w (2 * j + 2))"

definition heap_from :: "(nat \<Rightarrow> 32 word) \<Rightarrow> nat \<Rightarrow> nat \<Rightarrow> bool" where
  "heap_from w n k \<longleftrightarrow> (\<forall>j\<ge>k. edge_ok w n j)"

definition down_ok :: "(nat \<Rightarrow> 32 word) \<Rightarrow> nat \<Rightarrow> nat \<Rightarrow> nat \<Rightarrow> bool" where
  "down_ok w n k i \<longleftrightarrow>
     (\<forall>j\<ge>k. j \<noteq> i \<longrightarrow> edge_ok w n j) \<and>
     (\<forall>p\<ge>k. i = 2 * p + 1 \<or> i = 2 * p + 2 \<longrightarrow>
        (2 * i + 1 < n \<longrightarrow> w p \<le> w (2 * i + 1)) \<and> (2 * i + 2 < n \<longrightarrow> w p \<le> w (2 * i + 2)))"

definition up_ok :: "(nat \<Rightarrow> 32 word) \<Rightarrow> nat \<Rightarrow> nat \<Rightarrow> bool" where
  "up_ok w n i \<longleftrightarrow>
     (\<forall>j. (2 * j + 1 < n \<and> 2 * j + 1 \<noteq> i \<longrightarrow> w j \<le> w (2 * j + 1)) \<and>
          (2 * j + 2 < n \<and> 2 * j + 2 \<noteq> i \<longrightarrow> w j \<le> w (2 * j + 2))) \<and>
     (\<forall>p. i = 2 * p + 1 \<or> i = 2 * p + 2 \<longrightarrow>
        (2 * i + 1 < n \<longrightarrow> w p \<le> w (2 * i + 1)) \<and> (2 * i + 2 < n \<longrightarrow> w p \<le> w (2 * i + 2)))"

text \<open>The choice of \<open>heapify\<close> between a slot and its two children, on weights.\<close>

definition pick_w :: "(nat \<Rightarrow> 32 word) \<Rightarrow> nat \<Rightarrow> nat \<Rightarrow> nat \<Rightarrow> nat" where
  "pick_w w n s c = (if c < n \<and> w c < w s then c else s)"

definition smallest_w :: "(nat \<Rightarrow> 32 word) \<Rightarrow> nat \<Rightarrow> nat \<Rightarrow> nat" where
  "smallest_w w n i = pick_w w n (pick_w w n i (2 * i + 1)) (2 * i + 2)"

section \<open>Example heaps\<close>

text \<open>
  Small heaps on which the theorems below are instantiated: a heap of three nodes with a
  free slot, a full heap of one node, that heap after its node was popped, three nodes in
  no heap order, and a parent above two children of equal weight.
\<close>

definition ex_heap :: min_heap where
  "ex_heap = \<lparr>size_h = 3, capacity = 4,
     array = [Some (Node None 3 None None), Some (Node None 7 None None),
              Some (Node None 5 None None), None]\<rparr>"

definition ex_full :: min_heap where
  "ex_full = \<lparr>size_h = 1, capacity = 1, array = [Some (Node None 3 None None)]\<rparr>"

definition ex_drained :: min_heap where
  "ex_drained = \<lparr>size_h = 0, capacity = 1, array = [Some (Node None 3 None None)]\<rparr>"

definition ex_unordered :: min_heap where
  "ex_unordered = \<lparr>size_h = 3, capacity = 3,
     array = [Some (Node None 9 None None), Some (Node None 5 None None),
              Some (Node None 4 None None)]\<rparr>"

definition ex_tie :: min_heap where
  "ex_tie = \<lparr>size_h = 3, capacity = 3,
     array = [Some (Node None 9 None None), Some (Node None 4 None None),
              Some (Node None 4 None None)]\<rparr>"

section \<open>Properties of the heap operations\<close>

lemma fill_loop_done: "\<not> i < sz \<Longrightarrow> fill_loop h item_a freq_a sz i = Inr h"
  by (subst fill_loop.simps) simp

lemma build_loop_done: "i < 0 \<Longrightarrow> build_loop h i = Inr h"
  by (subst build_loop.simps) simp

lemma create_and_build_min_heap_0:
  "create_and_build_min_heap item_a freq_a 0 = Inr (create_heap 0)"
  by (simp add: create_and_build_min_heap_def fill_loop_done build_min_heap_def chk_def
      INT_MIN_def INT_MAX_def sdiv_two build_loop_done create_heap_def)

lemma wf_size: "wf_heap h \<Longrightarrow> size_h h = int (nat (size_h h))"
  by (simp add: wf_heap_def)

lemma wf_slot:
  assumes "wf_heap h" "i < nat (size_h h)"
  shows "i < length (array h)" "array h ! i = Some (the (array h ! i))"
proof -
  from assms show l: "i < length (array h)"
    by (auto simp: wf_heap_def)
  from assms l have "live h ! i = array h ! i" "i < length (live h)"
    by (simp_all add: live_def)
  then have "array h ! i \<in> set (live h)"
    by (metis nth_mem)
  with assms show "array h ! i = Some (the (array h ! i))"
    by (cases "array h ! i") (auto simp: wf_heap_def)
qed

lemma read_slot_wf:
  "wf_heap h \<Longrightarrow> i < nat (size_h h) \<Longrightarrow> read_slot h (int i) = Inr (the (array h ! i))"
  using wf_slot [of h i] by (auto simp: read_slot_def split: option.splits)

lemma freq_at_wf:
  "wf_heap h \<Longrightarrow> i < nat (size_h h) \<Longrightarrow> freq_at h (int i) = Inr (wt h i)"
  by (simp add: freq_at_def read_slot_wf wt_def)

lemma smallest_w_cases:
  "smallest_w w n i = i \<or> smallest_w w n i = 2 * i + 1 \<or> smallest_w w n i = 2 * i + 2"
  by (simp add: smallest_w_def pick_w_def)

lemma smallest_w_least:
  "w (smallest_w w n i) \<le> w i"
  "2 * i + 1 < n \<Longrightarrow> w (smallest_w w n i) \<le> w (2 * i + 1)"
  "2 * i + 2 < n \<Longrightarrow> w (smallest_w w n i) \<le> w (2 * i + 2)"
  by (auto simp: smallest_w_def pick_w_def)

lemma smallest_w_neq:
  "smallest_w w n i \<noteq> i \<Longrightarrow> smallest_w w n i < n \<and> w (smallest_w w n i) < w i"
  by (auto simp: smallest_w_def pick_w_def split: if_splits)

lemma down_done:
  assumes "down_ok w n k i" "smallest_w w n i = i"
  shows "heap_from w n k"
proof -
  have "edge_ok w n i"
    using smallest_w_least [where w=w and n=n and i=i] assms(2) by (simp add: edge_ok_def)
  with assms(1) show ?thesis
    unfolding heap_from_def down_ok_def by metis
qed

lemma down_step:
  assumes d: "down_ok w n k i" and ki: "k \<le> i" and s: "s = smallest_w w n i" and ne: "s \<noteq> i"
    and w': "w' i = w s" "w' s = w i" "\<And>j. j \<noteq> i \<Longrightarrow> j \<noteq> s \<Longrightarrow> w' j = w j"
  shows "down_ok w' n k s"
proof -
  from s ne smallest_w_cases [of w n i] have sc: "s = 2 * i + 1 \<or> s = 2 * i + 2"
    by auto
  from s ne smallest_w_neq [of w n i] have sn: "s < n" and lt: "w s < w i"
    by auto
  have l1: "2 * i + 1 < n \<Longrightarrow> w s \<le> w (2 * i + 1)" and l2: "2 * i + 2 < n \<Longrightarrow> w s \<le> w (2 * i + 2)"
    using smallest_w_least [where w=w and n=n and i=i] s by auto
  have edge: "edge_ok w' n j" if j: "k \<le> j" "j \<noteq> s" for j
  proof (cases "j = i")
    case True
    show ?thesis
      unfolding edge_ok_def True
      using sc lt l1 l2 w' by (metis less_imp_le order_refl)
  next
    case False
    with d j have e: "edge_ok w n j"
      by (simp add: down_ok_def)
    have c1: "2 * j + 1 \<noteq> s" "2 * j + 2 \<noteq> s"
      using sc False by auto
    have "w' j = w j"
      using w'(3) False j by simp
    moreover have "2 * j + 1 < n \<Longrightarrow> w j \<le> w' (2 * j + 1)"
    proof (cases "2 * j + 1 = i")
      case True
      with d j sn sc have "w j \<le> w s"
        unfolding down_ok_def by (metis)
      with True w'(1) show ?thesis by simp
    next
      case F: False
      assume "2 * j + 1 < n"
      with e have "w j \<le> w (2 * j + 1)" by (simp add: edge_ok_def)
      with F c1 w'(3) show ?thesis by simp
    qed
    moreover have "2 * j + 2 < n \<Longrightarrow> w j \<le> w' (2 * j + 2)"
    proof (cases "2 * j + 2 = i")
      case True
      with d j sn sc have "w j \<le> w s"
        unfolding down_ok_def by (metis)
      with True w'(1) show ?thesis by simp
    next
      case F: False
      assume "2 * j + 2 < n"
      with e have "w j \<le> w (2 * j + 2)" by (simp add: edge_ok_def)
      with F c1 w'(3) show ?thesis by simp
    qed
    ultimately show ?thesis
      by (simp add: edge_ok_def)
  qed
  have gp: "(2 * s + 1 < n \<longrightarrow> w' p \<le> w' (2 * s + 1)) \<and> (2 * s + 2 < n \<longrightarrow> w' p \<le> w' (2 * s + 2))"
    if p: "k \<le> p" "s = 2 * p + 1 \<or> s = 2 * p + 2" for p
  proof -
    from p sc have pi: "p = i" by auto
    from sc ki have "k \<le> s" by auto
    with ne d have "edge_ok w n s"
      unfolding down_ok_def by blast
    moreover have "w' (2 * s + 1) = w (2 * s + 1)" "w' (2 * s + 2) = w (2 * s + 2)"
      using sc by (auto intro!: w'(3))
    ultimately show ?thesis
      using pi w'(1) by (simp add: edge_ok_def)
  qed
  from edge gp show ?thesis
    unfolding down_ok_def by blast
qed

lemma parent_child: "0 < i \<Longrightarrow> i = 2 * ((i - 1) div 2) + 1 \<or> i = 2 * ((i - 1) div 2) + 2"
  for i :: nat
  by presburger

lemma up_done:
  assumes "up_ok w n i" "i = 0 \<or> w ((i - 1) div 2) \<le> w i"
  shows "heap_from w n 0"
proof -
  have "edge_ok w n j" for j
  proof -
    have "w j \<le> w c" if c: "c = 2 * j + 1 \<or> c = 2 * j + 2" "c < n" for c
    proof (cases "c = i")
      case False
      with assms(1) c show ?thesis
        unfolding up_ok_def by blast
    next
      case True
      with c have "0 < i" "(i - 1) div 2 = j"
        by auto
      with assms(2) True show ?thesis
        by simp
    qed
    then show ?thesis
      by (simp add: edge_ok_def)
  qed
  then show ?thesis
    by (simp add: heap_from_def)
qed

lemma up_step:
  assumes u: "up_ok w n i" and i: "0 < i" "i < n" and p: "p = (i - 1) div 2" and lt: "w i < w p"
    and w': "w' i = w p" "w' p = w i" "\<And>j. j \<noteq> i \<Longrightarrow> j \<noteq> p \<Longrightarrow> w' j = w j"
  shows "up_ok w' n p"
proof -
  from i p have ip: "i = 2 * p + 1 \<or> i = 2 * p + 2"
    using parent_child [of i] by simp
  then have pi: "p < i"
    by auto
  have old: "w j \<le> w c" if "c = 2 * j + 1 \<or> c = 2 * j + 2" "c < n" "c \<noteq> i" for j c
    using u that unfolding up_ok_def by blast
  have oldg: "w p \<le> w c" if "c = 2 * i + 1 \<or> c = 2 * i + 2" "c < n" for c
    using u ip that unfolding up_ok_def by blast
  have edge: "w' j \<le> w' c" if c: "c = 2 * j + 1 \<or> c = 2 * j + 2" "c < n" "c \<noteq> p" for j c
  proof -
    consider "j = p" "c = i" | "j = p" "c \<noteq> i" | "j = i" | "j \<noteq> p" "j \<noteq> i"
      by blast
    then show ?thesis
    proof cases
      case 1
      with lt w' show ?thesis by simp
    next
      case 2
      with c pi have "w' c = w c" "w p \<le> w c"
        by (auto intro!: w'(3) old)
      with 2 lt w'(2) show ?thesis by simp
    next
      case 3
      with c pi have "w' c = w c" "w p \<le> w c"
        by (auto intro!: w'(3) oldg)
      with 3 w'(1) show ?thesis by simp
    next
      case 4
      with c ip have ci: "c \<noteq> i"
        by auto
      with c 4 have "w' c = w c" "w' j = w j" "w j \<le> w c"
        by (auto intro!: w'(3) old)
      then show ?thesis by simp
    qed
  qed
  have gp: "w' q \<le> w' c"
    if q: "p = 2 * q + 1 \<or> p = 2 * q + 2" and c: "c = 2 * p + 1 \<or> c = 2 * p + 2" "c < n" for q c
  proof -
    from q pi have "w' q = w q"
      by (auto intro!: w'(3))
    moreover from q pi i have qp: "w q \<le> w p"
      by (auto intro!: old)
    moreover have "w p \<le> w' c"
    proof (cases "c = i")
      case True
      with w'(1) show ?thesis by simp
    next
      case False
      with c have "w p \<le> w c" "w' c = w c"
        by (auto intro!: old w'(3))
      then show ?thesis by simp
    qed
    ultimately show ?thesis
      by simp
  qed
  show ?thesis
    unfolding up_ok_def using edge gp by blast
qed

lemma heap_from_min:
  assumes "heap_from w n 0" "j < n"
  shows "w 0 \<le> w j"
  using assms(2)
proof (induction j rule: less_induct)
  case (less j)
  show ?case
  proof (cases "j = 0")
    case True
    then show ?thesis by simp
  next
    case False
    let ?p = "(j - 1) div 2"
    from False have pj: "?p < j" and c: "j = 2 * ?p + 1 \<or> j = 2 * ?p + 2"
      using parent_child [of j] by auto
    from less.IH [OF pj] less.prems pj have "w 0 \<le> w ?p"
      by simp
    moreover from assms(1) c less.prems have "w ?p \<le> w j"
      unfolding heap_from_def edge_ok_def by (metis le0)
    ultimately show ?thesis
      by simp
  qed
qed

lemma swap_h_simps [simp]:
  "size_h (swap_h h a b) = size_h h" "capacity (swap_h h a b) = capacity h"
  "length (array (swap_h h a b)) = length (array h)"
  by (simp_all add: swap_h_def)

lemma live_swap_h:
  assumes "a < nat (size_h h)" "b < nat (size_h h)" "size_h h \<le> int (length (array h))"
  shows "live (swap_h h a b) = (live h)[a := live h ! b, b := live h ! a]"
  using assms by (simp add: live_def swap_h_def take_update_swap)

lemma mset_live_swap_h:
  assumes "a < nat (size_h h)" "b < nat (size_h h)" "size_h h \<le> int (length (array h))"
  shows "mset (live (swap_h h a b)) = mset (live h)"
proof -
  from assms have "a < length (live h)" "b < length (live h)"
    by (simp_all add: live_def)
  then show ?thesis
    unfolding live_swap_h [OF assms] by (simp add: mset_swap)
qed

lemma wf_heap_swap_h:
  assumes "wf_heap h" "a < nat (size_h h)" "b < nat (size_h h)"
  shows "wf_heap (swap_h h a b)"
proof -
  from assms have "mset (live (swap_h h a b)) = mset (live h)"
    by (intro mset_live_swap_h) (simp_all add: wf_heap_def)
  then have "set (live (swap_h h a b)) = set (live h)"
    by (rule mset_eq_setD)
  with assms(1) show ?thesis
    by (simp add: wf_heap_def)
qed

lemma contents_swap_h:
  assumes "wf_heap h" "a < nat (size_h h)" "b < nat (size_h h)"
  shows "contents (swap_h h a b) = contents h"
proof -
  from assms have "mset (live (swap_h h a b)) = mset (live h)"
    by (intro mset_live_swap_h) (simp_all add: wf_heap_def)
  then have "image_mset the (mset (live (swap_h h a b))) = image_mset the (mset (live h))"
    by simp
  then show ?thesis
    by (simp add: contents_def nodes_of_def)
qed

lemma wt_swap_h:
  assumes "a < length (array h)" "b < length (array h)"
  shows "wt (swap_h h a b) j = (if j = b then wt h a else if j = a then wt h b else wt h j)"
  using assms by (simp add: wt_def swap_h_def nth_list_update)

lemma swap_node_wf:
  assumes "wf_heap h" "a < nat (size_h h)" "b < nat (size_h h)"
  shows "swap_node h (int a) (int b) = Inr (swap_h h a b)"
proof -
  note sa = wf_slot [OF assms(1,2)] and sb = wf_slot [OF assms(1,3)]
  show ?thesis
    using sa sb
    by (simp add: swap_node_def read_slot_wf [OF assms(1)] assms write_slot_def swap_h_def)
qed

lemma pick_wf:
  assumes "wf_heap h" "s < nat (size_h h)"
  shows "pick h (int s) (int c) = Inr (int (pick_w (wt h) (nat (size_h h)) s c))"
proof (cases "c < nat (size_h h)")
  case True
  then have "int c < size_h h"
    by simp
  with True assms show ?thesis
    by (simp add: pick_def freq_at_wf pick_w_def)
next
  case False
  with assms show ?thesis
    by (auto simp: pick_def pick_w_def wf_heap_def)
qed

lemma pick_w_less: "s < n \<Longrightarrow> pick_w w n s c < n"
  by (simp add: pick_w_def)

lemma heapify_unfold:
  assumes wf: "wf_heap h" and i: "i < nat (size_h h)"
  shows "heapify h (int i) =
           (if smallest_w (wt h) (nat (size_h h)) i \<noteq> i
            then heapify (swap_h h (smallest_w (wt h) (nat (size_h h)) i) i)
                   (int (smallest_w (wt h) (nat (size_h h)) i))
            else Inr h)"
proof -
  let ?n = "nat (size_h h)"
  let ?s1 = "pick_w (wt h) ?n i (2 * i + 1)"
  let ?s = "smallest_w (wt h) ?n i"
  from wf i have b: "2 * int i + 2 \<le> INT_MAX"
    by (auto simp: wf_heap_def)
  have c: "chk (2 * int i) = Inr (2 * int i)" "chk (2 * int i + 1) = Inr (2 * int i + 1)"
    "chk (2 * int i + 2) = Inr (2 * int i + 2)"
    using b by (simp_all add: chk_def INT_MIN_def)
  have p1: "pick h (int i) (2 * int i + 1) = Inr (int ?s1)"
    using pick_wf [OF wf i, of "2 * i + 1"] by (simp add: add.commute)
  have s1: "?s1 < ?n"
    using i by (rule pick_w_less)
  have p2: "pick h (int ?s1) (2 * int i + 2) = Inr (int ?s)"
    using pick_wf [OF wf s1, of "2 * i + 2"] by (simp add: smallest_w_def add.commute)
  have s: "?s < ?n"
    unfolding smallest_w_def using s1 by (rule pick_w_less)
  have "heapify h (int i) =
          (if int ?s \<noteq> int i
           then seq (swap_node h (int ?s) (int i)) (\<lambda>h'. heapify h' (int ?s))
           else Inr h)"
    by (subst heapify.simps) (simp only: c seq_Inr p1 p2)
  then show ?thesis
    by (simp add: swap_node_wf [OF wf s i])
qed

lemma heapify_nochild:
  assumes "size_h h \<le> 2 * i + 1" "0 \<le> i" "2 * i + 2 \<le> INT_MAX"
  shows "heapify h i = Inr h"
  using assms by (subst heapify.simps) (simp add: chk_def INT_MIN_def pick_def)

lemma heapify_correct:
  assumes "wf_heap h" "i < nat (size_h h)"
  shows "\<exists>h'. heapify h (int i) = Inr h' \<and> wf_heap h' \<and> size_h h' = size_h h
           \<and> contents h' = contents h
           \<and> (\<forall>k\<le>i. down_ok (wt h) (nat (size_h h)) k i \<longrightarrow> heap_from (wt h') (nat (size_h h)) k)"
  using assms
proof (induction "nat (size_h h) - i" arbitrary: h i rule: less_induct)
  case less
  let ?n = "nat (size_h h)"
  let ?s = "smallest_w (wt h) ?n i"
  note wf = \<open>wf_heap h\<close> and i = \<open>i < ?n\<close>
  show ?case
  proof (cases "?s = i")
    case True
    then have "heapify h (int i) = Inr h"
      using heapify_unfold [OF wf i] by simp
    with True wf show ?thesis
      by (auto intro: down_done)
  next
    case False
    let ?h1 = "swap_h h ?s i"
    from False have sn: "?s < ?n" and lt: "wt h ?s < wt h i"
      using smallest_w_neq [of "wt h" ?n i] by auto
    from False have si: "i < ?s"
      using smallest_w_cases [of "wt h" ?n i] by auto
    have wf1: "wf_heap ?h1"
      using wf sn i by (rule wf_heap_swap_h)
    have "nat (size_h ?h1) - ?s < ?n - i"
      using si sn by simp
    from less.hyps [OF this wf1] sn
    obtain h' where h': "heapify ?h1 (int ?s) = Inr h'" "wf_heap h'" "size_h h' = size_h h"
      "contents h' = contents ?h1"
      and hp: "\<forall>k\<le>?s. down_ok (wt ?h1) ?n k ?s \<longrightarrow> heap_from (wt h') ?n k"
      by auto
    have e: "heapify h (int i) = Inr h'"
      using heapify_unfold [OF wf i] False h'(1) by simp
    have c: "contents h' = contents h"
      using h'(4) contents_swap_h [OF wf sn i] by simp
    have la: "?s < length (array h)" "i < length (array h)"
      using wf_slot(1) [OF wf sn] wf_slot(1) [OF wf i] by simp_all
    have "heap_from (wt h') ?n k" if k: "k \<le> i" "down_ok (wt h) ?n k i" for k
    proof -
      have "down_ok (wt ?h1) ?n k ?s"
        using k(2) k(1) refl False
      proof (rule down_step)
        show "wt ?h1 i = wt h ?s" "wt ?h1 ?s = wt h i"
          using False by (simp_all add: wt_swap_h [OF la])
        show "\<And>j. j \<noteq> i \<Longrightarrow> j \<noteq> ?s \<Longrightarrow> wt ?h1 j = wt h j"
          by (simp add: wt_swap_h [OF la])
      qed
      with hp k si show ?thesis
        by simp
    qed
    with e h'(2,3) c show ?thesis
      by blast
  qed
qed

lemma heap_prop_iff: "heap_prop h \<longleftrightarrow> heap_from (wt h) (nat (size_h h)) 0"
proof
  assume "heap_prop h"
  then have "edge_ok (wt h) (nat (size_h h)) j" for j
    by (cases "j < nat (size_h h)") (auto simp: heap_prop_def edge_ok_def)
  then show "heap_from (wt h) (nat (size_h h)) 0"
    by (simp add: heap_from_def)
next
  assume "heap_from (wt h) (nat (size_h h)) 0"
  then show "heap_prop h"
    by (simp add: heap_from_def heap_prop_def edge_ok_def)
qed

lemma mset_move_last:
  "L \<noteq> [] \<Longrightarrow> mset ((butlast L)[0 := last L]) + {#hd L#} = mset L"
proof (cases L)
  case Nil
  assume "L \<noteq> []"
  with Nil show ?thesis by simp
next
  case (Cons y ys)
  show ?thesis
  proof (cases "ys = []")
    case True
    with Cons show ?thesis by simp
  next
    case False
    then have "mset (butlast ys) + {#last ys#} = mset ys"
      by (metis append_butlast_last_id mset.simps(1) mset.simps(2) union_mset_add_mset_right
          add.right_neutral mset_append)
    with Cons False show ?thesis
      by simp
  qed
qed

lemma pop_correct:
  assumes wf: "wf_heap h" and sz: "1 \<le> size_h h"
  shows "\<exists>h'. pop h = Inr (the (array h ! 0), h') \<and> wf_heap h' \<and> size_h h' = size_h h - 1
           \<and> capacity h' = capacity h
           \<and> contents h = contents h' + {#the (array h ! 0)#}
           \<and> (heap_prop h \<longrightarrow> heap_prop h')"
proof -
  let ?n = "nat (size_h h)"
  let ?a = "array h"
  let ?t = "the (?a ! 0)"
  let ?x = "the (?a ! (?n - 1))"
  define h1 where "h1 = h\<lparr>array := ?a[0 := Some ?x], size_h := size_h h - 1\<rparr>"
  from sz have n: "0 < ?n" "?n - 1 < ?n" "int (?n - 1) = size_h h - 1"
    by auto
  from wf have len: "?n \<le> length ?a" and cap: "2 * int (length ?a) \<le> INT_MAX"
    by (auto simp: wf_heap_def)
  have r0: "read_slot h 0 = Inr ?t"
    using read_slot_wf [OF wf n(1)] by simp
  have c: "chk (size_h h - 1) = Inr (size_h h - 1)"
    using sz len cap by (simp add: chk_def INT_MIN_def INT_MAX_def)
  have rl: "read_slot h (size_h h - 1) = Inr ?x"
    using read_slot_wf [OF wf n(2)] by (simp only: n(3))
  have w: "write_slot h 0 ?x = Inr (h\<lparr>array := ?a[0 := Some ?x]\<rparr>)"
    using n(1) len by (auto simp: write_slot_def)
  have p: "pop h = seq (heapify h1 0) (\<lambda>h2. Inr (?t, h2))"
    unfolding pop_def r0 seq_Inr c rl w by (simp add: c h1_def)
  let ?L = "live h"
  have L1: "length ?L = ?n"
    using len by (simp add: live_def)
  with n(1) have Lne: "?L \<noteq> []"
    by auto
  have nth_L: "?L ! j = ?a ! j" if "j < ?n" for j
    using that by (simp add: live_def)
  have L: "hd ?L = ?a ! 0" "last ?L = ?a ! (?n - 1)"
    using nth_L [OF n(1)] nth_L [OF n(2)]
    by (simp_all only: hd_conv_nth [OF Lne] last_conv_nth [OF Lne] L1)
  have sx: "?a ! (?n - 1) = Some ?x"
    by (rule wf_slot(2) [OF wf n(2)])
  have st: "?a ! 0 = Some ?t"
    by (rule wf_slot(2) [OF wf n(1)])
  have "last ?L = Some ?x"
    using L(2) sx by (simp only:)
  then have l1: "live h1 = (butlast ?L)[0 := last ?L]"
    using len n
    by (simp add: live_def h1_def butlast_take take_update_swap nat_diff_distrib)
  have "hd ?L = Some ?t"
    using L(1) st by (simp only:)
  then have m: "mset (live h1) + {#Some ?t#} = mset ?L"
    using mset_move_last [OF Lne] l1 by simp
  then have "set (live h1) \<subseteq> set ?L"
    by (metis mset_subset_eqD mset_subset_eq_add_left set_mset_mset subsetI)
  with wf sz have wf1: "wf_heap h1"
    by (auto simp: wf_heap_def h1_def)
  have "image_mset the (mset (live h1) + {#Some ?t#}) = image_mset the (mset ?L)"
    using m by simp
  then have c1: "contents h = contents h1 + {#?t#}"
    by (simp add: contents_def nodes_of_def)
  have wt1: "wt h1 j = wt h j" if "j \<noteq> 0" for j
    using that by (simp add: wt_def h1_def)
  have s1: "nat (size_h h1) = ?n - 1" "size_h h1 = size_h h - 1" "capacity h1 = capacity h"
    using n by (simp_all add: h1_def)
  have d: "down_ok (wt h1) (?n - 1) 0 0" if "heap_prop h"
  proof -
    from that have "edge_ok (wt h) ?n j" for j
      by (simp add: heap_prop_iff heap_from_def)
    then have "edge_ok (wt h1) (?n - 1) j" if "j \<noteq> 0" for j
      using that wt1 by (auto simp: edge_ok_def)
    then show ?thesis
      by (simp add: down_ok_def)
  qed
  show ?thesis
  proof (cases "?n - 1 = 0")
    case True
    then have "heapify h1 0 = Inr h1"
      using s1 by (intro heapify_nochild) (simp_all add: INT_MAX_def)
    moreover have "heap_prop h1"
      using True s1 by (simp add: heap_prop_def)
    ultimately show ?thesis
      using p wf1 s1 c1 by simp
  next
    case False
    then have "0 < nat (size_h h1)"
      using s1 by simp
    from heapify_correct [OF wf1 this] obtain h' where
      h': "heapify h1 0 = Inr h'" "wf_heap h'" "size_h h' = size_h h1" "contents h' = contents h1"
      and hp: "down_ok (wt h1) (nat (size_h h1)) 0 0 \<longrightarrow> heap_from (wt h') (nat (size_h h1)) 0"
      by auto
    from heapify_Inr [OF h'(1)] have "capacity h' = capacity h1"
      by simp
    moreover have "heap_prop h'" if "heap_prop h"
      using hp d [OF that] s1 h'(3) by (simp add: heap_prop_iff)
    ultimately show ?thesis
      using p h' s1 c1 by simp
  qed
qed

lemma pop_empty:
  assumes "size_h h = 0"
  shows "pop h = Inl OutOfBounds \<or> pop h = Inl Uninitialised"
proof (cases "read_slot h 0")
  case (Inl e)
  then have "pop h = Inl e"
    by (simp add: pop_def)
  moreover from Inl have "e = OutOfBounds \<or> e = Uninitialised"
    by (auto simp: read_slot_def split: if_splits option.splits)
  ultimately show ?thesis
    by auto
next
  case (Inr t)
  with assms have "pop h = Inl OutOfBounds"
    by (simp add: pop_def chk_def INT_MIN_def INT_MAX_def read_slot_def)
  then show ?thesis ..
qed

lemma fill_h_simps [simp]:
  "size_h (fill_h h i nd) = size_h h" "capacity (fill_h h i nd) = capacity h"
  "length (array (fill_h h i nd)) = length (array h)"
  by (simp_all add: fill_h_def)

lemma write_slot_fill:
  "i < length (array h) \<Longrightarrow> write_slot h (int i) nd = Inr (fill_h h i nd)"
  by (simp add: write_slot_def fill_h_def)

lemma read_slot_Some:
  "i < length (array h) \<Longrightarrow> array h ! i = Some x \<Longrightarrow> read_slot h (int i) = Inr x"
  by (simp add: read_slot_def)

lemma insert_loop_stop:
  assumes "i = 0 \<or> (\<exists>fp. freq_at h ((i - 1) sdiv 2) = Inr fp \<and> \<not> freq nd < fp)"
    and "INT_MIN < i" "i \<le> INT_MAX"
  shows "insert_loop h nd i = Inr (h, i)"
  using assms by (subst insert_loop.simps) (auto simp: chk_def)

lemma insert_loop_step:
  assumes "i \<noteq> 0" "INT_MIN < i" "i \<le> INT_MAX"
    and "freq_at h ((i - 1) sdiv 2) = Inr fp" "freq nd < fp"
    and "read_slot h ((i - 1) sdiv 2) = Inr x" "write_slot h i x = Inr h1"
  shows "insert_loop h nd i = insert_loop h1 nd ((i - 1) sdiv 2)"
  using assms by (subst insert_loop.simps) (auto simp: chk_def)

lemma insert_loop_correct:
  assumes "wf_heap (fill_h h i nd)" "i < nat (size_h h)"
  shows "\<exists>h' j. insert_loop h nd (int i) = Inr (h', int j) \<and> j < nat (size_h h)
           \<and> size_h h' = size_h h \<and> capacity h' = capacity h
           \<and> wf_heap (fill_h h' j nd)
           \<and> contents (fill_h h' j nd) = contents (fill_h h i nd)
           \<and> (up_ok (wt (fill_h h i nd)) (nat (size_h h)) i
                \<longrightarrow> heap_from (wt (fill_h h' j nd)) (nat (size_h h)) 0)"
  using assms
proof (induction i arbitrary: h rule: less_induct)
  case (less i)
  let ?G = "fill_h h i nd"
  let ?n = "nat (size_h h)"
  define p where "p = (i - 1) div 2"
  note wf = \<open>wf_heap ?G\<close> and i = \<open>i < ?n\<close>
  from wf i have il: "i < length (array h)" and cap: "2 * int (length (array h)) \<le> INT_MAX"
    using wf_slot(1) [of ?G i] by (simp_all add: wf_heap_def)
  then have rng: "INT_MIN < int i" "int i \<le> INT_MAX"
    by (simp_all add: INT_MIN_def)
  have wi: "wt ?G i = freq nd"
    using il by (simp add: wt_def fill_h_def)
  show ?case
  proof (cases "i = 0")
    case True
    then have "insert_loop h nd (int i) = Inr (h, int i)"
      using rng by (intro insert_loop_stop) simp_all
    moreover have "heap_from (wt ?G) ?n 0" if "up_ok (wt ?G) ?n i"
      using that True by (auto intro: up_done)
    ultimately show ?thesis
      using wf i by blast
  next
    case False
    then have pi: "p < i" and sd: "(int i - 1) sdiv 2 = int p" and ip: "0 < i"
      by (auto simp: sdiv_two p_def)
    from pi i have pn: "p < nat (size_h ?G)"
      by simp
    have ap: "array ?G ! p = array h ! p"
      using pi by (simp add: fill_h_def)
    have wp: "wt ?G p = wt h p"
      using ap by (simp add: wt_def)
    let ?x = "the (array h ! p)"
    have sx: "array h ! p = Some ?x"
      using wf_slot(2) [OF wf pn] by (simp only: ap)
    have pl: "p < length (array h)"
      using pi il by simp
    have rs: "read_slot h (int p) = Inr ?x"
      using pl sx by (rule read_slot_Some)
    have fa: "freq_at h (int p) = Inr (wt h p)"
      by (simp add: freq_at_def rs wt_def)
    show ?thesis
    proof (cases "freq nd < wt h p")
      case F: False
      have "insert_loop h nd (int i) = Inr (h, int i)"
        using rng fa F by (intro insert_loop_stop) (simp_all add: sd)
      moreover have "heap_from (wt ?G) ?n 0" if "up_ok (wt ?G) ?n i"
      proof (rule up_done [OF that])
        from F wi wp have "wt ?G p \<le> wt ?G i"
          by simp
        then show "i = 0 \<or> wt ?G ((i - 1) div 2) \<le> wt ?G i"
          unfolding p_def by simp
      qed
      ultimately show ?thesis
        using wf i by blast
    next
      case True
      define h1 where "h1 = h\<lparr>array := (array h)[i := Some ?x]\<rparr>"
      have ws: "write_slot h (int i) ?x = Inr h1"
        using il by (simp add: write_slot_def h1_def)
      have "insert_loop h nd (int i) = insert_loop h1 nd ((int i - 1) sdiv 2)"
      proof (rule insert_loop_step)
        show "int i \<noteq> 0" using ip by simp
        show "INT_MIN < int i" "int i \<le> INT_MAX" by (rule rng)+
        show "freq_at h ((int i - 1) sdiv 2) = Inr (wt h p)" by (simp only: sd fa)
        show "freq nd < wt h p" by (rule True)
        show "read_slot h ((int i - 1) sdiv 2) = Inr ?x" by (simp only: sd rs)
        show "write_slot h (int i) ?x = Inr h1" by (rule ws)
      qed
      then have e: "insert_loop h nd (int i) = insert_loop h1 nd (int p)"
        by (simp only: sd)
      have G1: "fill_h h1 p nd = swap_h ?G i p"
        using pi il sx by (simp add: fill_h_def h1_def swap_h_def list_update_swap)
      have i': "i < nat (size_h ?G)"
        using i by simp
      have wf1: "wf_heap (fill_h h1 p nd)"
        unfolding G1 using wf i' pn by (rule wf_heap_swap_h)
      have pn1: "p < nat (size_h h1)"
        using pn by (simp add: h1_def)
      from less.IH [OF pi wf1 pn1]
      obtain h' j where r: "insert_loop h1 nd (int p) = Inr (h', int j)" "j < nat (size_h h1)"
        "size_h h' = size_h h1" "capacity h' = capacity h1" "wf_heap (fill_h h' j nd)"
        "contents (fill_h h' j nd) = contents (fill_h h1 p nd)"
        and hp: "up_ok (wt (fill_h h1 p nd)) (nat (size_h h1)) p
                   \<longrightarrow> heap_from (wt (fill_h h' j nd)) (nat (size_h h1)) 0"
        by blast
      have s1: "size_h h1 = size_h h" "capacity h1 = capacity h"
        by (simp_all add: h1_def)
      have c: "contents (fill_h h' j nd) = contents ?G"
        using r(6) contents_swap_h [OF wf i' pn] by (simp add: G1)
      have la: "i < length (array ?G)" "p < length (array ?G)"
        using il pi by simp_all
      have "heap_from (wt (fill_h h' j nd)) ?n 0" if u: "up_ok (wt ?G) ?n i"
      proof -
        have "up_ok (wt (swap_h ?G i p)) ?n p"
          using u ip i p_def
        proof (rule up_step)
          show "wt ?G i < wt ?G p" using True wi wp by simp
          show "wt (swap_h ?G i p) i = wt ?G p" "wt (swap_h ?G i p) p = wt ?G i"
            using pi by (simp_all add: wt_swap_h [OF la])
          show "\<And>j. j \<noteq> i \<Longrightarrow> j \<noteq> p \<Longrightarrow> wt (swap_h ?G i p) j = wt ?G j"
            by (simp add: wt_swap_h [OF la])
        qed
        with hp show ?thesis
          by (simp add: G1 s1)
      qed
      with e r s1 c show ?thesis
        by auto
    qed
  qed
qed

lemma read_slot_array: "array h' = array h \<Longrightarrow> read_slot h' i = read_slot h i"
  by (simp add: read_slot_def)

lemma insert_node_correct:
  assumes wf: "wf_heap h" and room: "size_h h < int (length (array h))"
  shows "\<exists>h'. insert_node h nd = Inr h' \<and> wf_heap h' \<and> size_h h' = size_h h + 1
           \<and> capacity h' = capacity h
           \<and> contents h' = contents h + {#nd#}
           \<and> (heap_prop h \<longrightarrow> heap_prop h')"
proof -
  define n where "n = nat (size_h h)"
  define h0 where "h0 = h\<lparr>size_h := size_h h + 1\<rparr>"
  let ?G = "fill_h h0 n nd"
  from wf have sz: "size_h h = int n" and cap: "2 * int (length (array h)) \<le> INT_MAX"
    and non: "None \<notin> set (live h)" and cl: "capacity h = length (array h)"
    by (simp_all add: wf_heap_def n_def)
  from room sz have nl: "n < length (array h)"
    by simp
  have c1: "chk (size_h h + 1) = Inr (size_h h + 1)"
    using sz nl cap by (simp add: chk_def INT_MIN_def)
  have c2: "chk (size_h h + 1 - 1) = Inr (int n)"
    using sz nl cap by (simp add: chk_def INT_MIN_def)
  have e: "insert_node h nd = seq (insert_loop h0 nd (int n)) (\<lambda>(h2, j). write_slot h2 j nd)"
    unfolding insert_node_def c1 seq_Inr c2 h0_def ..
  have s0: "nat (size_h h0) = Suc n" "size_h h0 = size_h h + 1" "array h0 = array h"
    "capacity h0 = capacity h"
    using sz by (simp_all add: h0_def)
  have lG: "live ?G = live h @ [Some nd]"
    using nl s0 by (simp add: live_def fill_h_def n_def [symmetric] take_Suc_conv_app_nth)
  have wfG: "wf_heap ?G"
    using wf nl sz non cl cap unfolding wf_heap_def lG by (simp add: s0)
  have cG: "contents ?G = contents h + {#nd#}"
    by (simp add: contents_def nodes_of_def lG)
  have wG: "wt ?G j = wt h j" if "j < n" for j
    using that by (simp add: wt_def fill_h_def s0)
  have up: "up_ok (wt ?G) (Suc n) n" if "heap_prop h"
  proof -
    from that have e: "edge_ok (wt h) n j" for j
      by (simp add: heap_prop_iff heap_from_def n_def)
    have "wt ?G j \<le> wt ?G c" if "c = 2 * j + 1 \<or> c = 2 * j + 2" "c < Suc n" "c \<noteq> n" for j c
    proof -
      from that have "c < n" "j < n"
        by auto
      with e [of j] that(1) wG show ?thesis
        by (auto simp: edge_ok_def)
    qed
    then show ?thesis
      unfolding up_ok_def by auto
  qed
  from insert_loop_correct [of h0 n nd] wfG s0(1)
  obtain h' j where r: "insert_loop h0 nd (int n) = Inr (h', int j)" "j < Suc n"
    "size_h h' = size_h h0" "capacity h' = capacity h0" "wf_heap (fill_h h' j nd)"
    "contents (fill_h h' j nd) = contents ?G"
    and hp: "up_ok (wt ?G) (Suc n) n \<longrightarrow> heap_from (wt (fill_h h' j nd)) (Suc n) 0"
    by auto
  from insert_loop_Inr [OF r(1)] r(2) nl s0 have "j < length (array h')"
    by simp
  then have w: "write_slot h' (int j) nd = Inr (fill_h h' j nd)"
    by (rule write_slot_fill)
  have "insert_node h nd = Inr (fill_h h' j nd)"
    by (simp add: e r(1) w)
  moreover have "heap_prop (fill_h h' j nd)" if "heap_prop h"
    using hp up [OF that] r(3) s0 by (simp add: heap_prop_iff)
  ultimately show ?thesis
    using r s0 cG by auto
qed

lemma insert_node_full:
  assumes wf: "wf_heap h" and full: "size_h h = int (length (array h))"
  shows "insert_node h nd = Inl OutOfBounds"
proof -
  define n where "n = length (array h)"
  define h0 where "h0 = h\<lparr>size_h := size_h h + 1\<rparr>"
  from wf have cap: "2 * int n \<le> INT_MAX"
    by (simp add: wf_heap_def n_def)
  have c1: "chk (size_h h + 1) = Inr (size_h h + 1)"
    using full cap by (simp add: chk_def INT_MIN_def INT_MAX_def n_def)
  have c2: "chk (size_h h + 1 - 1) = Inr (int n)"
    using full cap by (simp add: chk_def INT_MIN_def INT_MAX_def n_def)
  have e: "insert_node h nd = seq (insert_loop h0 nd (int n)) (\<lambda>(h2, j). write_slot h2 j nd)"
    unfolding insert_node_def c1 seq_Inr c2 h0_def ..
  have out: "write_slot h0 (int n) x = Inl OutOfBounds" for x
    by (simp add: write_slot_def h0_def n_def)
  have rng: "INT_MIN < int n" "int n \<le> INT_MAX"
    using cap by (simp_all add: INT_MIN_def)
  show ?thesis
  proof (cases "n = 0")
    case True
    then have "insert_loop h0 nd (int n) = Inr (h0, int n)"
      by (subst insert_loop.simps) simp
    with out show ?thesis
      by (simp add: e)
  next
    case False
    define p where "p = (n - 1) div 2"
    from False have sd: "(int n - 1) sdiv 2 = int p" and pn: "p < n"
      by (auto simp: sdiv_two p_def)
    from full pn have "p < nat (size_h h)"
      by (simp add: n_def)
    have "read_slot h0 (int p) = read_slot h (int p)"
      by (rule read_slot_array) (simp add: h0_def)
    with read_slot_wf [OF wf \<open>p < nat (size_h h)\<close>]
    have rs: "read_slot h0 (int p) = Inr (the (array h ! p))"
      by simp
    then have fa: "freq_at h0 (int p) = Inr (wt h p)"
      by (simp add: freq_at_def wt_def)
    have c3: "chk (int n - 1) = Inr (int n - 1)"
      using rng by (simp add: chk_def)
    have "insert_loop h0 nd (int n) =
            (if freq nd < wt h p then Inl OutOfBounds else Inr (h0, int n))"
      using False by (subst insert_loop.simps) (simp add: c3 sd fa rs out)
    with out show ?thesis
      by (simp add: e)
  qed
qed

lemma build_loop_correct:
  assumes "wf_heap h" "- 1 \<le> i" "i < size_h h \<or> i = - 1"
    and "heap_from (wt h) (nat (size_h h)) (nat (i + 1))"
  shows "\<exists>h'. build_loop h i = Inr h' \<and> wf_heap h' \<and> size_h h' = size_h h
           \<and> capacity h' = capacity h \<and> contents h' = contents h \<and> heap_prop h'"
  using assms
proof (induction "nat (i + 1)" arbitrary: h i)
  case 0
  then have "i = - 1"
    by simp
  with 0 show ?case
    by (simp add: build_loop_done heap_prop_iff)
next
  case (Suc m)
  let ?n = "nat (size_h h)"
  from Suc.hyps(2) Suc.prems have i: "0 \<le> i" "nat i < ?n" "int (nat i) = i" "m = nat i"
    by auto
  note wf = \<open>wf_heap h\<close>
  from heapify_correct [OF wf i(2), unfolded i(3)] obtain h1 where
    h1: "heapify h i = Inr h1" "wf_heap h1" "size_h h1 = size_h h" "contents h1 = contents h"
    and hp: "\<forall>k\<le>nat i. down_ok (wt h) ?n k (nat i) \<longrightarrow> heap_from (wt h1) ?n k"
    by blast
  have "down_ok (wt h) ?n (nat i) (nat i)"
    using Suc.prems(4) i(1) by (auto simp: down_ok_def heap_from_def nat_add_distrib)
  with hp have hf: "heap_from (wt h1) ?n (nat i)"
    by simp
  from wf i have "i \<le> INT_MAX"
    by (auto simp: wf_heap_def)
  with i(1) have c: "chk (i - 1) = Inr (i - 1)"
    by (simp add: chk_def INT_MIN_def)
  have e: "build_loop h i = build_loop h1 (i - 1)"
    using i(1) by (subst build_loop.simps) (simp add: h1(1) c)
  have "m = nat (i - 1 + 1)"
    using i by simp
  moreover have "i - 1 < size_h h1 \<or> i - 1 = - 1"
    using i h1(3) by auto
  moreover have "heap_from (wt h1) (nat (size_h h1)) (nat (i - 1 + 1))"
    using hf h1(3) by simp
  ultimately obtain h' where "build_loop h1 (i - 1) = Inr h'" "wf_heap h'"
    "size_h h' = size_h h1" "capacity h' = capacity h1" "contents h' = contents h1" "heap_prop h'"
    using Suc.hyps(1) [of "i - 1" h1] h1(2) i(1) by auto
  with e h1 heapify_Inr [OF h1(1)] show ?case
    by simp
qed

lemma build_min_heap_correct:
  assumes wf: "wf_heap h"
  shows "\<exists>h'. build_min_heap h = Inr h' \<and> wf_heap h' \<and> size_h h' = size_h h
           \<and> capacity h' = capacity h \<and> contents h' = contents h \<and> heap_prop h'"
proof -
  define n where "n = nat (size_h h)"
  define i where "i = (size_h h - 1 - 1) sdiv 2"
  from wf have sz: "size_h h = int n" and cap: "2 * int n \<le> INT_MAX"
    by (auto simp: wf_heap_def n_def)
  have c: "chk (size_h h - 1) = Inr (size_h h - 1)" "chk (size_h h - 1 - 1) = Inr (size_h h - 1 - 1)"
    using sz cap by (simp_all add: chk_def INT_MIN_def INT_MAX_def)
  have e: "build_min_heap h = build_loop h i"
    unfolding build_min_heap_def c seq_Inr i_def ..
  have i: "- 1 \<le> i" "i < size_h h \<or> i = - 1" "int n \<le> 2 * i + 3"
    using sz by (auto simp: i_def sdiv_two)
  have "heap_from (wt h) n (nat (i + 1))"
  proof -
    have "edge_ok (wt h) n j" if "nat (i + 1) \<le> j" for j
    proof -
      from that i have "n \<le> 2 * j + 1"
        by linarith
      then show ?thesis
        by (simp add: edge_ok_def)
    qed
    then show ?thesis
      by (simp add: heap_from_def)
  qed
  with build_loop_correct [OF wf i(1,2)] e show ?thesis
    by (simp add: n_def)
qed

lemma fill_loop_correct:
  assumes "n \<le> length item_a" "n \<le> length freq_a" "length (array h) = n" "i \<le> n"
    and "int n \<le> INT_MAX"
  shows "fill_loop h item_a freq_a (int n) (int i) =
           Inr (h\<lparr>array := take i (array h)
                  @ map (\<lambda>k. Some (new_node (item_a ! k) (freq_a ! k))) [i..<n]\<rparr>)"
  using assms
proof (induction "n - i" arbitrary: h i)
  case 0
  then show ?case
    by (simp add: fill_loop_done)
next
  case (Suc m)
  let ?v = "new_node (item_a ! i) (freq_a ! i)"
  let ?h1 = "h\<lparr>array := (array h)[i := Some ?v]\<rparr>"
  from Suc have i: "i < n" "m = n - Suc i" "Suc i \<le> n"
    by simp_all
  have r: "read_arr item_a (int i) = Inr (item_a ! i)" "read_arr freq_a (int i) = Inr (freq_a ! i)"
    using i Suc.prems by (simp_all add: read_arr_def)
  have w: "write_slot h (int i) ?v = Inr ?h1"
    using i Suc.prems by (simp add: write_slot_def)
  have c: "chk (int i + 1) = Inr (int (Suc i))"
    using i Suc.prems by (simp add: chk_def INT_MIN_def)
  have "fill_loop h item_a freq_a (int n) (int i) = fill_loop ?h1 item_a freq_a (int n) (int (Suc i))"
    using i by (subst fill_loop.simps) (simp only: r w c seq_Inr of_nat_less_iff if_True)
  also have "\<dots> = Inr (?h1\<lparr>array := take (Suc i) (array ?h1)
                  @ map (\<lambda>k. Some (new_node (item_a ! k) (freq_a ! k))) [Suc i..<n]\<rparr>)"
    using Suc.prems i by (intro Suc.hyps(1)) simp_all
  also have "take (Suc i) (array ?h1) = take i (array h) @ [Some ?v]"
    using i Suc.prems by (simp add: take_Suc_conv_app_nth)
  finally show ?case
    using i by (simp add: upt_conv_Cons)
qed

lemma create_and_build_min_heap_correct:
  assumes "n \<le> length item_a" "n \<le> length freq_a" "2 * int n \<le> INT_MAX"
  shows "\<exists>h. create_and_build_min_heap item_a freq_a (int n) = Inr h \<and> wf_heap h
           \<and> size_h h = int n \<and> capacity h = n
           \<and> contents h = mset (leaf_nodes item_a freq_a n) \<and> heap_prop h"
proof -
  let ?f = "\<lambda>k. new_node (item_a ! k) (freq_a ! k)"
  define h0 where "h0 = \<lparr>size_h = int n, capacity = n, array = map (\<lambda>k. Some (?f k)) [0..<n]\<rparr>"
  from assms(3) have m: "nat (int n mod 2 ^ 32) = n" and nm: "int n \<le> INT_MAX"
    by (simp_all add: INT_MAX_def)
  have "fill_loop (create_heap n) item_a freq_a (int n) (int 0) =
          Inr ((create_heap n)\<lparr>array := take 0 (array (create_heap n))
                  @ map (\<lambda>k. Some (?f k)) [0..<n]\<rparr>)"
    using assms(1,2) _ _ nm by (rule fill_loop_correct) (simp_all add: create_heap_def)
  then have e: "create_and_build_min_heap item_a freq_a (int n) = build_min_heap h0"
    unfolding create_and_build_min_heap_def m by (simp add: h0_def create_heap_def)
  have l: "live h0 = map (\<lambda>k. Some (?f k)) [0..<n]"
    by (simp add: live_def h0_def)
  have wf: "wf_heap h0"
    unfolding wf_heap_def l using assms(3) by (auto simp: h0_def)
  have c: "contents h0 = mset (leaf_nodes item_a freq_a n)"
    by (simp add: contents_def nodes_of_def l leaf_nodes_def comp_def)
  from build_min_heap_correct [OF wf] e c show ?thesis
    by (auto simp: h0_def)
qed

lemma weights_ok_sum: "weights_ok t \<Longrightarrow> freq t = of_nat (leaf_sum t)"
  by (induction t rule: weights_ok.induct) simp_all

lemma merge_loop_step:
  assumes "size_h h \<noteq> 1" "pop h = Inr (l, h1)" "pop h1 = Inr (r, h2)"
    "insert_node h2 (merged l r) = Inr h3"
  shows "merge_loop h k = merge_loop h3 (Suc k)"
  using assms by (subst merge_loop.simps) (simp add: check_size_def merged_def new_node_def)

lemma merge_loop_correct:
  assumes "wf_heap h" "1 \<le> size_h h"
  shows "\<exists>h'. merge_loop h k = Inr (h', k + (nat (size_h h) - 1)) \<and> wf_heap h' \<and> size_h h' = 1
           \<and> total_of leaves h' = total_of leaves h
           \<and> total_of internals h' = total_of internals h + (nat (size_h h) - 1)
           \<and> total_of leaf_sum h' = total_of leaf_sum h
           \<and> ((\<forall>t\<in>#contents h. full t \<and> weights_ok t)
                \<longrightarrow> (\<forall>t\<in>#contents h'. full t \<and> weights_ok t))"
  using assms
proof (induction "nat (size_h h)" arbitrary: h k rule: less_induct)
  case less
  note wf = \<open>wf_heap h\<close> and sz = \<open>1 \<le> size_h h\<close>
  show ?case
  proof (cases "size_h h = 1")
    case True
    then have "merge_loop h k = Inr (h, k)"
      by (subst merge_loop.simps) (simp add: check_size_def)
    with True wf show ?thesis
      by simp
  next
    case False
    with sz have sz2: "2 \<le> size_h h"
      by simp
    from pop_correct [OF wf sz] obtain l h1 where
      p1: "pop h = Inr (l, h1)" "wf_heap h1" "size_h h1 = size_h h - 1" "capacity h1 = capacity h"
        "contents h = contents h1 + {#l#}"
      by blast
    from sz2 p1(3) have "1 \<le> size_h h1"
      by simp
    from pop_correct [OF p1(2) this] obtain r h2 where
      p2: "pop h1 = Inr (r, h2)" "wf_heap h2" "size_h h2 = size_h h1 - 1" "capacity h2 = capacity h1"
        "contents h1 = contents h2 + {#r#}"
      by blast
    from wf p1 p2 have "size_h h2 < int (length (array h2))"
      by (simp add: wf_heap_def)
    from insert_node_correct [OF p2(2) this, of "merged l r"] obtain h3 where
      p3: "insert_node h2 (merged l r) = Inr h3" "wf_heap h3" "size_h h3 = size_h h2 + 1"
        "contents h3 = contents h2 + {#merged l r#}"
      by blast
    have e: "merge_loop h k = merge_loop h3 (Suc k)"
      using False p1(1) p2(1) p3(1) by (rule merge_loop_step)
    have s3: "size_h h3 = size_h h - 1"
      using p1(3) p2(3) p3(3) by simp
    with sz2 have "nat (size_h h3) < nat (size_h h)" "1 \<le> size_h h3"
      by simp_all
    from less.hyps [OF this(1) p3(2) this(2), of "Suc k"] obtain h' where
      r: "merge_loop h3 (Suc k) = Inr (h', Suc k + (nat (size_h h3) - 1))" "wf_heap h'"
        "size_h h' = 1" "total_of leaves h' = total_of leaves h3"
        "total_of internals h' = total_of internals h3 + (nat (size_h h3) - 1)"
        "total_of leaf_sum h' = total_of leaf_sum h3"
        "(\<forall>t\<in>#contents h3. full t \<and> weights_ok t) \<longrightarrow> (\<forall>t\<in>#contents h'. full t \<and> weights_ok t)"
      by blast
    have k: "Suc k + (nat (size_h h3) - 1) = k + (nat (size_h h) - 1)"
      using s3 sz2 by (simp add: nat_diff_distrib)
    have c: "contents h = contents h2 + {#l#} + {#r#}"
      using p1(5) p2(5) by simp
    have t1: "total_of leaves h3 = total_of leaves h"
      by (simp add: total_of_def c p3(4) merged_def)
    have t2: "total_of internals h3 + (nat (size_h h3) - 1) = total_of internals h + (nat (size_h h) - 1)"
      using s3 sz2 by (simp add: total_of_def c p3(4) merged_def nat_diff_distrib)
    have t3: "total_of leaf_sum h3 = total_of leaf_sum h"
      by (simp add: total_of_def c p3(4) merged_def)
    have t4: "\<forall>t\<in>#contents h3. full t \<and> weights_ok t"
      if "\<forall>t\<in>#contents h. full t \<and> weights_ok t"
      using that by (auto simp: c p3(4) merged_def)
    have "merge_loop h k = Inr (h', k + (nat (size_h h) - 1))"
      by (simp only: e r(1) k)
    moreover have "total_of leaves h' = total_of leaves h"
      by (simp only: r(4) t1)
    moreover have "total_of internals h' = total_of internals h + (nat (size_h h) - 1)"
      by (simp only: r(5) t2)
    moreover have "total_of leaf_sum h' = total_of leaf_sum h"
      by (simp only: r(6) t3)
    moreover have "\<forall>t\<in>#contents h'. full t \<and> weights_ok t"
      if "\<forall>t\<in>#contents h. full t \<and> weights_ok t"
      using r(7) t4 [OF that] by blast
    ultimately show ?thesis
      using r(2,3) by blast
  qed
qed

lemma contents_empty: "size_h h = 0 \<Longrightarrow> contents h = {#}"
  by (simp add: contents_def nodes_of_def live_def)

lemma total_of_list: "contents h = mset xs \<Longrightarrow> total_of f h = sum_list (map f xs)"
  by (simp only: total_of_def mset_map [symmetric] sum_mset_sum_list)

lemma total_of_leaf_nodes:
  assumes "contents h = mset (leaf_nodes item_a freq_a n)"
  shows "total_of leaves h = n" "total_of internals h = 0"
    "total_of leaf_sum h = (\<Sum>k<n. unat (freq_a ! k))"
    "\<forall>t\<in>#contents h. full t \<and> weights_ok t"
proof -
  show "total_of leaves h = n"
    by (simp add: total_of_list [OF assms] leaf_nodes_def new_node_def comp_def sum_list_triv)
  show "total_of internals h = 0"
    by (simp add: total_of_list [OF assms] leaf_nodes_def new_node_def comp_def)
  have "sum_list (map (\<lambda>k. unat (freq_a ! k)) [0..<n]) = (\<Sum>k<n. unat (freq_a ! k))"
    by (simp add: interv_sum_list_conv_sum_set_nat atLeast0LessThan)
  then show "total_of leaf_sum h = (\<Sum>k<n. unat (freq_a ! k))"
    by (simp add: total_of_list [OF assms] leaf_nodes_def new_node_def comp_def)
  show "\<forall>t\<in>#contents h. full t \<and> weights_ok t"
    by (auto simp: assms leaf_nodes_def new_node_def)
qed

lemma build_huffman_tree_correct:
  assumes "0 < n" "n \<le> length item_a" "n \<le> length freq_a" "2 * int n \<le> INT_MAX"
  shows "\<exists>h h' t. create_and_build_min_heap item_a freq_a (int n) = Inr h
           \<and> merge_loop h 0 = Inr (h', n - 1)
           \<and> build_huffman_tree item_a freq_a (int n) = Inr t
           \<and> leaves t = n \<and> internals t = n - 1 \<and> full t \<and> weights_ok t
           \<and> leaf_sum t = (\<Sum>k<n. unat (freq_a ! k))"
proof -
  from create_and_build_min_heap_correct [OF assms(2,3,4)] obtain h where
    h: "create_and_build_min_heap item_a freq_a (int n) = Inr h" "wf_heap h" "size_h h = int n"
      "contents h = mset (leaf_nodes item_a freq_a n)"
    by blast
  note t = total_of_leaf_nodes [OF h(4)]
  from assms(1) h(3) have "1 \<le> size_h h"
    by simp
  from merge_loop_correct [OF h(2) this, of 0] t obtain h' where
    m: "merge_loop h 0 = Inr (h', n - 1)" "wf_heap h'" "size_h h' = 1"
      "total_of leaves h' = n" "total_of internals h' = n - 1"
      "total_of leaf_sum h' = (\<Sum>k<n. unat (freq_a ! k))"
      "\<forall>t\<in>#contents h'. full t \<and> weights_ok t"
    by (auto simp: h(3))
  from m(3) have "1 \<le> size_h h'"
    by simp
  from pop_correct [OF m(2) this] obtain r h'' where
    p: "pop h' = Inr (r, h'')" "size_h h'' = size_h h' - 1" "contents h' = contents h'' + {#r#}"
    by blast
  from p(2) m(3) have "contents h'' = {#}"
    by (simp add: contents_empty)
  with p(3) have c: "contents h' = {#r#}"
    by simp
  have "build_huffman_tree item_a freq_a (int n) = Inr r"
    by (simp add: build_huffman_tree_def h(1) m(1) p(1))
  with h(1) m c show ?thesis
    by (simp add: total_of_def)
qed

lemma root_min:
  assumes wf: "wf_heap h" and hp: "heap_prop h" and x: "x \<in># contents h"
  shows "freq (the (array h ! 0)) \<le> freq x"
proof -
  from x have "x \<in> set (map the (live h))"
    by (simp add: contents_def nodes_of_def)
  then obtain j where j: "j < length (live h)" "x = the (live h ! j)"
    by (auto simp: in_set_conv_nth)
  then have "j < nat (size_h h)" "x = the (array h ! j)"
    by (simp_all add: live_def)
  with heap_from_min [of "wt h" "nat (size_h h)" j] hp show ?thesis
    by (simp add: heap_prop_iff wt_def)
qed

lemma pop_n_correct:
  assumes "wf_heap h" "heap_prop h" "k = nat (size_h h)"
  shows "\<exists>ts. pop_n k h = Inr ts \<and> mset ts = contents h \<and> sorted (map freq ts)"
  using assms
proof (induction k arbitrary: h)
  case 0
  then have "size_h h = 0"
    by (simp add: wf_heap_def)
  then show ?case
    by (simp add: contents_empty)
next
  case (Suc k)
  then have "1 \<le> size_h h"
    by simp
  from pop_correct [OF Suc.prems(1) this] Suc.prems(2) obtain h' where
    p: "pop h = Inr (the (array h ! 0), h')" "wf_heap h'" "size_h h' = size_h h - 1"
      "contents h = contents h' + {#the (array h ! 0)#}" "heap_prop h'"
    by blast
  from p(3) Suc.prems(3) have "k = nat (size_h h')"
    by simp
  from Suc.IH [OF p(2) p(5) this] obtain ts where
    ts: "pop_n k h' = Inr ts" "mset ts = contents h'" "sorted (map freq ts)"
    by blast
  have "freq (the (array h ! 0)) \<le> freq x" if "x \<in> set ts" for x
  proof -
    from that ts(2) p(4) have "x \<in># contents h"
      by (metis set_mset_mset union_iff)
    with Suc.prems show ?thesis
      by (intro root_min)
  qed
  with ts p(1,4) show ?case
    by auto
qed

lemma fill_loop_item_indep:
  assumes "length item_a = length item_b"
  shows "fill_loop h item_a freq_a sz i = fill_loop h item_b freq_a sz i"
  using assms
proof (induction h item_a freq_a sz i rule: fill_loop.induct)
  case (1 h item_a freq_a sz i)
  note len = \<open>length item_a = length item_b\<close>
  have "seq (read_arr item_a i) (\<lambda>c.
          seq (read_arr freq_a i) (\<lambda>f.
          seq (write_slot h i (new_node c f)) (\<lambda>h'.
          seq (chk (i + 1)) (\<lambda>i'.
          fill_loop h' item_a freq_a sz i')))) =
        seq (read_arr item_b i) (\<lambda>c.
          seq (read_arr freq_a i) (\<lambda>f.
          seq (write_slot h i (new_node c f)) (\<lambda>h'.
          seq (chk (i + 1)) (\<lambda>i'.
          fill_loop h' item_b freq_a sz i'))))" if lt: "i < sz"
  proof (cases "0 \<le> i \<and> i < int (length item_a)")
    case False
    with len have "read_arr item_a i = Inl OutOfBounds" "read_arr item_b i = Inl OutOfBounds"
      by (auto simp: read_arr_def)
    then show ?thesis
      by (simp only: seq_Inl)
  next
    case True
    then have ra: "read_arr item_a i = Inr (item_a ! nat i)"
      and rb: "read_arr item_b i = Inr (item_b ! nat i)"
      using len by (simp_all add: read_arr_def)
    show ?thesis
      unfolding ra rb seq_Inr
    proof (intro seq_cong refl)
      fix f h' i'
      assume "read_arr freq_a i = Inr f" "chk (i + 1) = Inr i'"
        and "write_slot h i (new_node (item_b ! nat i) f) = Inr h'"
      then show "fill_loop h' item_a freq_a sz i' = fill_loop h' item_b freq_a sz i'"
        using "1.IH" [OF lt ra, of f h' i'] len by (simp add: new_node_def)
    qed (simp add: new_node_def)
  qed
  then show ?case
    by (subst fill_loop.simps [of h item_a], subst fill_loop.simps [of h item_b]) simp
qed

lemma ex_tie_wf: "wf_heap ex_tie"
  by (simp add: ex_tie_def wf_heap_def live_def INT_MAX_def)

lemma ex_heap_wf: "wf_heap ex_heap" "heap_prop ex_heap"
  by (simp_all add: ex_heap_def wf_heap_def live_def INT_MAX_def heap_prop_def wt_def)

lemma ex_full_wf: "wf_heap ex_full"
  by (simp add: ex_full_def wf_heap_def live_def INT_MAX_def)

lemma ex_unordered_wf: "wf_heap ex_unordered"
  by (simp add: ex_unordered_def wf_heap_def live_def INT_MAX_def)

lemma ex_unordered_not_heap: "\<not> heap_prop ex_unordered"
  by (simp add: ex_unordered_def heap_prop_def wt_def)

section \<open>The claims\<close>

text \<open>
  C1: for a non-empty sequence of \<open>n\<close> pairs (with \<open>2 * n\<close> within \<open>int\<close>), the merge loop
  of \<open>build\<close> runs exactly \<open>n - 1\<close> times, and the tree returned has exactly \<open>n\<close> leaves and
  \<open>n - 1\<close> internal nodes, every node having no child or two.
\<close>

theorem build_merge_count:
  assumes "syms \<noteq> []" "2 * int (length syms) \<le> INT_MAX"
  shows "\<exists>h h' t. create_and_build_min_heap (map fst syms) (map snd syms) (int (length syms)) = Inr h
           \<and> merge_loop h 0 = Inr (h', length syms - 1)
           \<and> build syms = Inr t
           \<and> leaves t = length syms \<and> internals t = length syms - 1 \<and> full t"
proof -
  from assms(1) have "0 < length syms"
    by simp
  from build_huffman_tree_correct [OF this _ _ assms(2), of "map fst syms" "map snd syms"]
  show ?thesis
    unfolding build_def by auto
qed

theorem build_merge_count_witness:
  "[(CHR ''a'', 5), (CHR ''b'', 9), (CHR ''c'', 12 :: 32 word)] \<noteq> []
   \<and> 2 * int (length [(CHR ''a'', 5), (CHR ''b'', 9), (CHR ''c'', 12 :: 32 word)]) \<le> INT_MAX
   \<and> (\<exists>h h' t. create_and_build_min_heap ''abc'' [5, 9, 12] 3 = Inr h
           \<and> merge_loop h 0 = Inr (h', 2)
           \<and> build [(CHR ''a'', 5), (CHR ''b'', 9), (CHR ''c'', 12)] = Inr t
           \<and> leaves t = 3 \<and> internals t = 2 \<and> full t)"
  using build_merge_count [of "[(CHR ''a'', 5), (CHR ''b'', 9), (CHR ''c'', 12)]"]
  by (simp add: INT_MAX_def numeral_2_eq_2 numeral_3_eq_3)

text \<open>
  C2: on a well-formed heap with the heap property, \<open>pop\<close> returns a node whose weight is
  at most the weight of every node stored at the time of the call, and popping as many
  times as there are nodes yields the weights in non-decreasing order.
\<close>

theorem pop_returns_minimum:
  assumes "wf_heap h" "heap_prop h"
  shows "(1 \<le> size_h h \<longrightarrow>
            (\<exists>t h'. pop h = Inr (t, h') \<and> (\<forall>x\<in>#contents h. freq t \<le> freq x)))
         \<and> (\<exists>ts. pop_n (nat (size_h h)) h = Inr ts \<and> length ts = nat (size_h h)
                \<and> sorted (map freq ts))"
proof -
  have "\<exists>t h'. pop h = Inr (t, h') \<and> (\<forall>x\<in>#contents h. freq t \<le> freq x)" if "1 \<le> size_h h"
    using pop_correct [OF assms(1) that] root_min [OF assms] by blast
  moreover from pop_n_correct [OF assms refl] obtain ts where
    ts: "pop_n (nat (size_h h)) h = Inr ts" "mset ts = contents h" "sorted (map freq ts)"
    by blast
  from ts(2) have "size (mset ts) = size (contents h)"
    by simp
  with assms(1) have "length ts = nat (size_h h)"
    by (auto simp: contents_def nodes_of_def live_def wf_heap_def)
  ultimately show ?thesis
    using ts by blast
qed

theorem pop_returns_minimum_witness:
  "wf_heap ex_heap \<and> heap_prop ex_heap \<and> 1 \<le> size_h ex_heap
   \<and> (\<exists>t h'. pop ex_heap = Inr (t, h') \<and> (\<forall>x\<in>#contents ex_heap. freq t \<le> freq x))
   \<and> (\<exists>ts. pop_n 3 ex_heap = Inr ts \<and> length ts = 3 \<and> sorted (map freq ts))"
proof -
  have "size_h ex_heap = 3"
    by (simp add: ex_heap_def)
  with pop_returns_minimum [OF ex_heap_wf] ex_heap_wf show ?thesis
    by simp
qed

text \<open>
  C3: the heap property holds after \<open>insert\<close> and after \<open>pop\<close> when it held before, and
  after \<open>build_min_heap\<close> and \<open>create_and_build_min_heap\<close> whatever the order of the nodes
  was.
\<close>

theorem heap_property_preserved:
  "(wf_heap h \<and> heap_prop h \<and> size_h h < int (capacity h) \<longrightarrow>
      (\<exists>h'. insert_node h nd = Inr h' \<and> wf_heap h' \<and> heap_prop h'))
   \<and> (wf_heap h \<and> heap_prop h \<and> 1 \<le> size_h h \<longrightarrow>
      (\<exists>t h'. pop h = Inr (t, h') \<and> wf_heap h' \<and> heap_prop h'))
   \<and> (wf_heap g \<longrightarrow> (\<exists>g'. build_min_heap g = Inr g' \<and> wf_heap g' \<and> heap_prop g'))
   \<and> (n \<le> length item_a \<and> n \<le> length freq_a \<and> 2 * int n \<le> INT_MAX \<longrightarrow>
      (\<exists>g'. create_and_build_min_heap item_a freq_a (int n) = Inr g' \<and> wf_heap g'
         \<and> heap_prop g'))"
proof (intro conjI impI)
  assume a: "wf_heap h \<and> heap_prop h \<and> size_h h < int (capacity h)"
  then have "size_h h < int (length (array h))"
    by (simp add: wf_heap_def)
  with a insert_node_correct [of h nd]
  show "\<exists>h'. insert_node h nd = Inr h' \<and> wf_heap h' \<and> heap_prop h'"
    by blast
next
  assume "wf_heap h \<and> heap_prop h \<and> 1 \<le> size_h h"
  with pop_correct [of h] show "\<exists>t h'. pop h = Inr (t, h') \<and> wf_heap h' \<and> heap_prop h'"
    by blast
next
  assume "wf_heap g"
  with build_min_heap_correct [of g]
  show "\<exists>g'. build_min_heap g = Inr g' \<and> wf_heap g' \<and> heap_prop g'"
    by blast
next
  assume "n \<le> length item_a \<and> n \<le> length freq_a \<and> 2 * int n \<le> INT_MAX"
  with create_and_build_min_heap_correct [of n item_a freq_a]
  show "\<exists>g'. create_and_build_min_heap item_a freq_a (int n) = Inr g' \<and> wf_heap g'
          \<and> heap_prop g'"
    by blast
qed

theorem heap_property_preserved_witness:
  "wf_heap ex_heap \<and> heap_prop ex_heap \<and> size_h ex_heap < int (capacity ex_heap)
   \<and> 1 \<le> size_h ex_heap
   \<and> wf_heap ex_unordered \<and> \<not> heap_prop ex_unordered
   \<and> (3::nat) \<le> length ''abc'' \<and> 3 \<le> length [9, 5, 4 :: 32 word] \<and> 2 * int 3 \<le> INT_MAX
   \<and> (\<exists>h'. insert_node ex_heap (Node None 1 None None) = Inr h' \<and> wf_heap h' \<and> heap_prop h')
   \<and> (\<exists>t h'. pop ex_heap = Inr (t, h') \<and> wf_heap h' \<and> heap_prop h')
   \<and> (\<exists>g'. build_min_heap ex_unordered = Inr g' \<and> wf_heap g' \<and> heap_prop g')
   \<and> (\<exists>g'. create_and_build_min_heap ''abc'' [9, 5, 4] 3 = Inr g' \<and> wf_heap g'
         \<and> heap_prop g')"
proof -
  have "size_h ex_heap < int (capacity ex_heap)" "1 \<le> size_h ex_heap"
    by (simp_all add: ex_heap_def)
  moreover have "(3::nat) \<le> length ''abc''" "3 \<le> length [9, 5, 4 :: 32 word]"
    "2 * int 3 \<le> INT_MAX"
    by (simp_all add: INT_MAX_def)
  ultimately show ?thesis
    using heap_property_preserved [of ex_heap "Node None 1 None None" ex_unordered 3
        "''abc''" "[9, 5, 4]"]
      ex_heap_wf ex_unordered_wf ex_unordered_not_heap
    by simp
qed

text \<open>
  C4, as the code has it: in the tree returned by \<open>build\<close> every internal node's weight
  is the 32-bit unsigned sum of its two children's weights, so the root's weight is the
  sum of the leaf weights modulo \<open>2 ^ 32\<close>; the two are equal when that sum is below
  \<open>2 ^ 32\<close>.
\<close>

theorem root_weight_is_leaf_sum_mod:
  assumes "syms \<noteq> []" "2 * int (length syms) \<le> INT_MAX"
  shows "\<exists>t. build syms = Inr t \<and> weights_ok t
           \<and> leaf_sum t = sum_list (map (\<lambda>p. unat (snd p)) syms)
           \<and> unat (freq t) = leaf_sum t mod 2 ^ 32
           \<and> (leaf_sum t < 2 ^ 32 \<longrightarrow> unat (freq t) = leaf_sum t)"
proof -
  from assms(1) have "0 < length syms"
    by simp
  from build_huffman_tree_correct [OF this _ _ assms(2), of "map fst syms" "map snd syms"]
  obtain t where t: "build syms = Inr t" "weights_ok t"
    "leaf_sum t = (\<Sum>k<length syms. unat (map snd syms ! k))"
    unfolding build_def by auto
  have "(\<Sum>k<length syms. unat (map snd syms ! k)) = sum_list (map (\<lambda>p. unat (snd p)) syms)"
    by (simp add: sum_list_sum_nth atLeast0LessThan)
  with t(3) have s: "leaf_sum t = sum_list (map (\<lambda>p. unat (snd p)) syms)"
    by simp
  from weights_ok_sum [OF t(2)] have m: "unat (freq t) = leaf_sum t mod 2 ^ 32"
    by (simp add: unat_of_nat)
  then have "leaf_sum t < 2 ^ 32 \<longrightarrow> unat (freq t) = leaf_sum t"
    by simp
  with t(1,2) s m show ?thesis
    by blast
qed

theorem root_weight_is_leaf_sum_mod_witness:
  "[(CHR ''a'', 5), (CHR ''b'', 9), (CHR ''c'', 12 :: 32 word)] \<noteq> []
   \<and> 2 * int (length [(CHR ''a'', 5), (CHR ''b'', 9), (CHR ''c'', 12 :: 32 word)]) \<le> INT_MAX
   \<and> (\<exists>t. build [(CHR ''a'', 5), (CHR ''b'', 9), (CHR ''c'', 12)] = Inr t \<and> weights_ok t
           \<and> leaf_sum t = 26 \<and> unat (freq t) = leaf_sum t mod 2 ^ 32
           \<and> (leaf_sum t < 2 ^ 32 \<longrightarrow> unat (freq t) = leaf_sum t))"
  using root_weight_is_leaf_sum_mod [of "[(CHR ''a'', 5), (CHR ''b'', 9), (CHR ''c'', 12)]"]
  by (simp add: INT_MAX_def)

text \<open>
  Three symbols of frequency \<open>2 ^ 31 - 1\<close>: the leaf weights add up to 6442450941 and the
  root's weight is 2147483645.
\<close>

theorem root_weight_overflow_counterexample:
  "build [(CHR ''a'', 2147483647), (CHR ''b'', 2147483647), (CHR ''c'', 2147483647)] =
     Inr (Node None 2147483645 (Some (Node None 2147483647 None None))
           (Some (Node None 4294967294 (Some (Node None 2147483647 None None))
                   (Some (Node None 2147483647 None None)))))
   \<and> leaf_sum (Node None 2147483645 (Some (Node None 2147483647 None None))
           (Some (Node None 4294967294 (Some (Node None 2147483647 None None))
                   (Some (Node None 2147483647 None None))))) = 6442450941
   \<and> unat (freq (Node None 2147483645 (Some (Node None 2147483647 None None))
           (Some (Node None 4294967294 (Some (Node None 2147483647 None None))
                   (Some (Node None 2147483647 None None)))))) = 2147483645"
proof (intro conjI)
  show "build [(CHR ''a'', 2147483647), (CHR ''b'', 2147483647), (CHR ''c'', 2147483647)] =
     Inr (Node None 2147483645 (Some (Node None 2147483647 None None))
           (Some (Node None 4294967294 (Some (Node None 2147483647 None None))
                   (Some (Node None 2147483647 None None)))))"
    by code_simp
qed simp_all

text \<open>
  C5, as the code has it: with \<open>size = 0\<close> no slot is allocated, the loop test
  \<open>size == 1\<close> fails, and the first \<open>pop\<close> reads \<open>array[0]\<close> outside the storage. The program
  has no defined result there: neither a tree nor an \<open>EmptyInput\<close> error, whatever the two
  arrays hold.
\<close>

theorem build_huffman_tree_empty:
  "build_huffman_tree item_a freq_a 0 = Inl OutOfBounds"
  by (simp add: build_huffman_tree_def create_and_build_min_heap_0 merge_loop.simps
      check_size_def create_heap_def pop_def read_slot_def)

theorem build_empty_counterexample: "build [] = Inl OutOfBounds"
  by code_simp

text \<open>
  C6: for a single pair \<open>(c, f)\<close> the builder returns, without a fault, one leaf of weight
  \<open>f\<close>. The leaf does not carry the symbol: its \<open>item\<close> was never written, because line 14 of
  \<open>new_node\<close> subtracts where it means to assign. So it is on the input \<open>[('a', 5)]\<close>.
\<close>

theorem build_single_item_lost:
  "build [(c, f)] = Inr (Node None f None None)
   \<and> is_leaf (Node None f None None) \<and> item (Node None f None None) = None
   \<and> build [(CHR ''a'', 5)] = Inr (Node None 5 None None)"
proof -
  have single: "build [(c, f)] = Inr (Node None f None None)" for c f
  proof -
    have l: "(1::nat) \<le> length [c]" "(1::nat) \<le> length [f]" "2 * int 1 \<le> INT_MAX"
      by (simp_all add: INT_MAX_def)
    from create_and_build_min_heap_correct [OF l] obtain h where
      h: "create_and_build_min_heap [c] [f] (int 1) = Inr h" "wf_heap h" "size_h h = int 1"
        "contents h = mset (leaf_nodes [c] [f] 1)"
      by blast
    from h(3) have m: "merge_loop h 0 = Inr (h, 0)"
      by (subst merge_loop.simps) (simp add: check_size_def)
    from h(3) have "1 \<le> size_h h"
      by simp
    from pop_correct [OF h(2) this] obtain r h' where
      p: "pop h = Inr (r, h')" "size_h h' = size_h h - 1" "contents h = contents h' + {#r#}"
      by blast
    from p(2) h(3) have "contents h' = {#}"
      by (simp add: contents_empty)
    with p(3) h(4) have "r = Node None f None None"
      by (simp add: leaf_nodes_def new_node_def)
    with h(1) m p(1) show ?thesis
      by (simp add: build_def build_huffman_tree_def)
  qed
  from single [of c f] single [of "CHR ''a''" 5] show ?thesis
    by (simp add: is_leaf_def)
qed

text \<open>
  C7, as the code has it: \<open>pop\<close> on a heap of size 0 has no defined result (it reads
  slot \<open>size - 1 = -1\<close>, or an empty or unwritten slot 0) and yields no \<open>HeapEmpty\<close> error; on
  a well-formed heap of size at least 1 it returns the node of slot 0 and decreases the
  size by one.
\<close>

theorem pop_on_size:
  "(size_h g = 0 \<longrightarrow> pop g = Inl OutOfBounds \<or> pop g = Inl Uninitialised)
   \<and> (wf_heap h \<and> 1 \<le> size_h h \<longrightarrow>
        (\<exists>h'. pop h = Inr (the (array h ! 0), h') \<and> size_h h' = size_h h - 1
           \<and> capacity h' = capacity h))"
proof (intro conjI impI)
  assume "size_h g = 0"
  then show "pop g = Inl OutOfBounds \<or> pop g = Inl Uninitialised"
    by (rule pop_empty)
next
  assume "wf_heap h \<and> 1 \<le> size_h h"
  with pop_correct [of h]
  show "\<exists>h'. pop h = Inr (the (array h ! 0), h') \<and> size_h h' = size_h h - 1
          \<and> capacity h' = capacity h"
    by blast
qed

theorem pop_on_size_witness:
  "size_h ex_drained = 0 \<and> wf_heap ex_heap \<and> 1 \<le> size_h ex_heap
   \<and> (pop ex_drained = Inl OutOfBounds \<or> pop ex_drained = Inl Uninitialised)
   \<and> (\<exists>h'. pop ex_heap = Inr (the (array ex_heap ! 0), h') \<and> size_h h' = size_h ex_heap - 1
          \<and> capacity h' = capacity ex_heap)"
proof -
  have "size_h ex_drained = 0" "1 \<le> size_h ex_heap"
    by (simp_all add: ex_drained_def ex_heap_def)
  with pop_on_size [of ex_drained ex_heap] ex_heap_wf(1) show ?thesis
    by simp
qed

text \<open>A heap of capacity 1 whose only node has been popped: the next \<open>pop\<close> reads slot -1.\<close>

theorem pop_empty_counterexample:
  "pop \<lparr>size_h = 0, capacity = 1, array = [Some (Node None 3 None None)]\<rparr> = Inl OutOfBounds"
  by code_simp

text \<open>
  C8, as the code has it: \<open>insert\<close> on a well-formed heap with \<open>size = capacity\<close> writes to
  slot \<open>capacity\<close>, one past the storage, and yields no \<open>HeapFull\<close> error; with
  \<open>size < capacity\<close> it succeeds, the node joins the contents and the size grows by one.
\<close>

theorem insert_on_capacity:
  "(wf_heap g \<and> size_h g = int (capacity g) \<longrightarrow> insert_node g nd = Inl OutOfBounds)
   \<and> (wf_heap h \<and> size_h h < int (capacity h) \<longrightarrow>
        (\<exists>h'. insert_node h nd = Inr h' \<and> size_h h' = size_h h + 1
           \<and> capacity h' = capacity h \<and> contents h' = contents h + {#nd#}))"
proof (intro conjI impI)
  assume "wf_heap g \<and> size_h g = int (capacity g)"
  then have "wf_heap g" "size_h g = int (length (array g))"
    by (simp_all add: wf_heap_def)
  then show "insert_node g nd = Inl OutOfBounds"
    by (rule insert_node_full)
next
  assume a: "wf_heap h \<and> size_h h < int (capacity h)"
  then have "size_h h < int (length (array h))"
    by (simp add: wf_heap_def)
  with a insert_node_correct [of h nd]
  show "\<exists>h'. insert_node h nd = Inr h' \<and> size_h h' = size_h h + 1
          \<and> capacity h' = capacity h \<and> contents h' = contents h + {#nd#}"
    by blast
qed

theorem insert_on_capacity_witness:
  "wf_heap ex_full \<and> size_h ex_full = int (capacity ex_full)
   \<and> wf_heap ex_heap \<and> size_h ex_heap < int (capacity ex_heap)
   \<and> insert_node ex_full (Node None 4 None None) = Inl OutOfBounds
   \<and> (\<exists>h'. insert_node ex_heap (Node None 4 None None) = Inr h'
          \<and> size_h h' = size_h ex_heap + 1 \<and> capacity h' = capacity ex_heap
          \<and> contents h' = contents ex_heap + {#Node None 4 None None#})"
proof -
  have "size_h ex_full = int (capacity ex_full)" "size_h ex_heap < int (capacity ex_heap)"
    by (simp_all add: ex_full_def ex_heap_def)
  with insert_on_capacity [of ex_full "Node None 4 None None" ex_heap] ex_full_wf ex_heap_wf(1)
  show ?thesis
    by simp
qed

text \<open>A full heap of capacity 1: \<open>insert\<close> writes to slot 1.\<close>

theorem insert_full_counterexample:
  "insert_node \<lparr>size_h = 1, capacity = 1, array = [Some (Node None 3 None None)]\<rparr>
     (Node None 4 None None) = Inl OutOfBounds"
  by code_simp

text \<open>
  C9: when both children of a slot have the same weight, smaller than the slot's own,
  \<open>heapify\<close> exchanges the slot with its left child and goes on from there; and the tree
  built depends on the frequencies alone, not on the symbols (the model is a function,
  so equal inputs give equal trees).
\<close>

theorem sift_down_tie_prefers_left:
  "(wf_heap h \<and> 2 * i + 2 < nat (size_h h) \<and> wt h (2 * i + 1) = wt h (2 * i + 2)
      \<and> wt h (2 * i + 1) < wt h i \<longrightarrow>
      heapify h (int i) =
        seq (swap_node h (int (2 * i + 1)) (int i)) (\<lambda>h'. heapify h' (int (2 * i + 1))))
   \<and> (length item_a = length item_b \<longrightarrow>
        build_huffman_tree item_a freq_a sz = build_huffman_tree item_b freq_a sz)"
proof (intro conjI impI)
  assume a: "wf_heap h \<and> 2 * i + 2 < nat (size_h h) \<and> wt h (2 * i + 1) = wt h (2 * i + 2)
      \<and> wt h (2 * i + 1) < wt h i"
  let ?n = "nat (size_h h)"
  from a have wf: "wf_heap h" and i: "i < ?n" and l: "2 * i + 1 < ?n"
    by simp_all
  from a have s: "smallest_w (wt h) ?n i = 2 * i + 1"
    by (auto simp: smallest_w_def pick_w_def)
  have "heapify h (int i) = heapify (swap_h h (2 * i + 1) i) (int (2 * i + 1))"
    using heapify_unfold [OF wf i] unfolding s by simp
  then show "heapify h (int i) =
      seq (swap_node h (int (2 * i + 1)) (int i)) (\<lambda>h'. heapify h' (int (2 * i + 1)))"
    by (simp only: swap_node_wf [OF wf l i] seq_Inr)
next
  assume len: "length item_a = length item_b"
  show "build_huffman_tree item_a freq_a sz = build_huffman_tree item_b freq_a sz"
    unfolding build_huffman_tree_def create_and_build_min_heap_def
      fill_loop_item_indep [OF len] ..
qed

theorem sift_down_tie_prefers_left_witness:
  "wf_heap ex_tie \<and> 2 * 0 + 2 < nat (size_h ex_tie) \<and> wt ex_tie (2 * 0 + 1) = wt ex_tie (2 * 0 + 2)
   \<and> wt ex_tie (2 * 0 + 1) < wt ex_tie 0 \<and> length ''abc'' = length ''xyz''
   \<and> heapify ex_tie (int 0) =
        seq (swap_node ex_tie (int (2 * 0 + 1)) (int 0)) (\<lambda>h'. heapify h' (int (2 * 0 + 1)))
   \<and> build_huffman_tree ''abc'' [5, 9, 12] 3 = build_huffman_tree ''xyz'' [5, 9, 12] 3"
proof -
  note r = sift_down_tie_prefers_left [of ex_tie 0 "''abc''" "''xyz''" "[5, 9, 12]" 3]
  have h1: "2 * 0 + 2 < nat (size_h ex_tie)"
    and h2: "wt ex_tie (2 * 0 + 1) = wt ex_tie (2 * 0 + 2)"
    and h3: "wt ex_tie (2 * 0 + 1) < wt ex_tie 0"
    and h4: "length ''abc'' = length ''xyz''"
    by (simp_all add: ex_tie_def wt_def)
  have r1: "heapify ex_tie (int 0) =
        seq (swap_node ex_tie (int (2 * 0 + 1)) (int 0)) (\<lambda>h'. heapify h' (int (2 * 0 + 1)))"
    by (rule mp [OF r [THEN conjunct1]]) (intro conjI ex_tie_wf h1 h2 h3)
  have r2: "build_huffman_tree ''abc'' [5, 9, 12] 3 = build_huffman_tree ''xyz'' [5, 9, 12] 3"
    by (rule mp [OF r [THEN conjunct2]]) (rule h4)
  show ?thesis
    by (intro conjI ex_tie_wf h1 h2 h3 h4 r1 r2)
qed

text \<open>
  C10: a successful \<open>insert\<close> adds exactly the inserted node to the multiset of stored
  nodes, a successful \<open>pop\<close> removes exactly the node it returns, \<open>build_min_heap\<close> keeps
  the multiset, and \<open>create_and_build_min_heap\<close> stores exactly one leaf per input pair.
\<close>

theorem contents_preserved:
  "(wf_heap h \<and> insert_node h nd = Inr h1 \<longrightarrow> contents h1 = contents h + {#nd#})
   \<and> (wf_heap h \<and> pop h = Inr (t, h2) \<longrightarrow> contents h = contents h2 + {#t#})
   \<and> (wf_heap g \<and> build_min_heap g = Inr g1 \<longrightarrow> contents g1 = contents g)
   \<and> (n \<le> length item_a \<and> n \<le> length freq_a \<and> 2 * int n \<le> INT_MAX
        \<and> create_and_build_min_heap item_a freq_a (int n) = Inr g2 \<longrightarrow>
        contents g2 = mset (leaf_nodes item_a freq_a n))"
proof (intro conjI impI)
  assume a: "wf_heap h \<and> insert_node h nd = Inr h1"
  have "size_h h < int (length (array h))"
  proof (rule ccontr)
    assume "\<not> size_h h < int (length (array h))"
    with a have "size_h h = int (length (array h))"
      by (simp add: wf_heap_def)
    with a insert_node_full [of h nd] show False
      by simp
  qed
  with a insert_node_correct [of h nd] show "contents h1 = contents h + {#nd#}"
    by auto
next
  assume a: "wf_heap h \<and> pop h = Inr (t, h2)"
  then have "1 \<le> size_h h"
    using pop_Inr [of h t h2] by simp
  with a pop_correct [of h] show "contents h = contents h2 + {#t#}"
    by auto
next
  assume "wf_heap g \<and> build_min_heap g = Inr g1"
  with build_min_heap_correct [of g] show "contents g1 = contents g"
    by auto
next
  assume "n \<le> length item_a \<and> n \<le> length freq_a \<and> 2 * int n \<le> INT_MAX
        \<and> create_and_build_min_heap item_a freq_a (int n) = Inr g2"
  with create_and_build_min_heap_correct [of n item_a freq_a]
  show "contents g2 = mset (leaf_nodes item_a freq_a n)"
    by auto
qed

theorem contents_preserved_witness:
  "wf_heap ex_heap
   \<and> insert_node ex_heap (Node None 1 None None) =
       Inr \<lparr>size_h = 4, capacity = 4,
         array = [Some (Node None 1 None None), Some (Node None 3 None None),
                  Some (Node None 5 None None), Some (Node None 7 None None)]\<rparr>
   \<and> pop ex_heap =
       Inr (Node None 3 None None, \<lparr>size_h = 2, capacity = 4,
         array = [Some (Node None 5 None None), Some (Node None 7 None None),
                  Some (Node None 5 None None), None]\<rparr>)
   \<and> wf_heap ex_unordered
   \<and> build_min_heap ex_unordered =
       Inr \<lparr>size_h = 3, capacity = 3,
         array = [Some (Node None 4 None None), Some (Node None 5 None None),
                  Some (Node None 9 None None)]\<rparr>
   \<and> (3::nat) \<le> length ''abc'' \<and> 3 \<le> length [9, 5, 4 :: 32 word] \<and> 2 * int 3 \<le> INT_MAX
   \<and> create_and_build_min_heap ''abc'' [9, 5, 4] (int 3) =
       Inr \<lparr>size_h = 3, capacity = 3,
         array = [Some (Node None 4 None None), Some (Node None 5 None None),
                  Some (Node None 9 None None)]\<rparr>
   \<and> contents \<lparr>size_h = 4, capacity = 4,
         array = [Some (Node None 1 None None), Some (Node None 3 None None),
                  Some (Node None 5 None None), Some (Node None 7 None None)]\<rparr> =
       contents ex_heap + {#Node None 1 None None#}
   \<and> contents ex_heap =
       contents \<lparr>size_h = 2, capacity = 4,
         array = [Some (Node None 5 None None), Some (Node None 7 None None),
                  Some (Node None 5 None None), None]\<rparr> + {#Node None 3 None None#}
   \<and> contents \<lparr>size_h = 3, capacity = 3,
         array = [Some (Node None 4 None None), Some (Node None 5 None None),
                  Some (Node None 9 None None)]\<rparr> = contents ex_unordered
   \<and> contents \<lparr>size_h = 3, capacity = 3,
         array = [Some (Node None 4 None None), Some (Node None 5 None None),
                  Some (Node None 9 None None)]\<rparr> = mset (leaf_nodes ''abc'' [9, 5, 4] 3)"
proof -
  have a: "insert_node ex_heap (Node None 1 None None) =
       Inr \<lparr>size_h = 4, capacity = 4,
         array = [Some (Node None 1 None None), Some (Node None 3 None None),
                  Some (Node None 5 None None), Some (Node None 7 None None)]\<rparr>"
    unfolding ex_heap_def by code_simp
  have b: "pop ex_heap =
       Inr (Node None 3 None None, \<lparr>size_h = 2, capacity = 4,
         array = [Some (Node None 5 None None), Some (Node None 7 None None),
                  Some (Node None 5 None None), None]\<rparr>)"
    unfolding ex_heap_def by code_simp
  have c: "build_min_heap ex_unordered =
       Inr \<lparr>size_h = 3, capacity = 3,
         array = [Some (Node None 4 None None), Some (Node None 5 None None),
                  Some (Node None 9 None None)]\<rparr>"
    unfolding ex_unordered_def by code_simp
  have d: "create_and_build_min_heap ''abc'' [9, 5, 4] (int 3) =
       Inr \<lparr>size_h = 3, capacity = 3,
         array = [Some (Node None 4 None None), Some (Node None 5 None None),
                  Some (Node None 9 None None)]\<rparr>"
    by code_simp
  have e: "(3::nat) \<le> length ''abc''" "3 \<le> length [9, 5, 4 :: 32 word]" "2 * int 3 \<le> INT_MAX"
    by (simp_all add: INT_MAX_def)
  let ?E1 = "\<lparr>size_h = 4, capacity = 4,
         array = [Some (Node None 1 None None), Some (Node None 3 None None),
                  Some (Node None 5 None None), Some (Node None 7 None None)]\<rparr>"
  let ?E2 = "\<lparr>size_h = 2, capacity = 4,
         array = [Some (Node None 5 None None), Some (Node None 7 None None),
                  Some (Node None 5 None None), None]\<rparr>"
  let ?E3 = "\<lparr>size_h = 3, capacity = 3,
         array = [Some (Node None 4 None None), Some (Node None 5 None None),
                  Some (Node None 9 None None)]\<rparr>"
  note r = contents_preserved [of ex_heap "Node None 1 None None" ?E1 "Node None 3 None None" ?E2
      ex_unordered ?E3 3 "''abc''" "[9, 5, 4]" ?E3]
  have r1: "contents ?E1 = contents ex_heap + {#Node None 1 None None#}"
    by (rule mp [OF r [THEN conjunct1]]) (intro conjI ex_heap_wf(1) a)
  have r2: "contents ex_heap = contents ?E2 + {#Node None 3 None None#}"
    by (rule mp [OF r [THEN conjunct2, THEN conjunct1]]) (intro conjI ex_heap_wf(1) b)
  have r3: "contents ?E3 = contents ex_unordered"
    by (rule mp [OF r [THEN conjunct2, THEN conjunct2, THEN conjunct1]])
      (intro conjI ex_unordered_wf c)
  have r4: "contents ?E3 = mset (leaf_nodes ''abc'' [9, 5, 4] 3)"
    by (rule mp [OF r [THEN conjunct2, THEN conjunct2, THEN conjunct2]]) (intro conjI e d)
  show ?thesis
    by (intro conjI ex_heap_wf(1) a b ex_unordered_wf c e d r1 r2 r3 r4)
qed

end
